theory Spec2Isabelle
  imports Main
begin

section \<open>Data model (model.ts)\<close>

text \<open>
  Virtual time is a JavaScript \<open>number\<close>; the tests and examples of the repository
  only use integers, and the model takes \<open>int\<close>. On integers the comparator
  \<open>b.scheduledAt - a.scheduledAt\<close> and the comparisons \<open><\<close>, \<open>>=\<close> of the source are the
  ones of \<open>int\<close>.
\<close>

datatype EventState = Fired | Scheduled | Pending | Completed | Terminated

text \<open>
  The payload type \<open>T\<close> of the source is generic. The store tests whether a value is
  truthy, so the model carries the JavaScript values on which that test differs.
\<close>

datatype jsval = JUndefined | JNull | JBool bool | JNum int | JStr string

fun truthy :: "jsval \<Rightarrow> bool" where
  "truthy JUndefined = False"
| "truthy JNull = False"
| "truthy (JBool b) = b"
| "truthy (JNum n) = (n \<noteq> 0)"
| "truthy (JStr s) = (s \<noteq> [])"

text \<open>
  \<open>PromiseEvent<T>\<close>. The identifier is the value of the counter \<open>lastId\<close> that
  \<open>generateId\<close> turns into a decimal string; \<open>callback\<close> is a reference to a
  user-supplied process, looked up in a table of processes when the event is dispatched.
\<close>

record event =
  eid :: nat
  status :: EventState
  firedAt :: int
  scheduledAt :: int
  finishedAt :: "int option"
  item :: jsval
  callback :: nat

text \<open>
  \<open>Simulation\<close>: the clock and the queue. The fields \<open>terminate\<close> and
  \<open>termination\<close> of the source are the two ends of one promise; it is modelled where it is
  used, in \<open>handleEvent\<close> and \<open>runSimulation\<close>.
\<close>

record simulation =
  currentTime :: int
  events :: "event list"

datatype error = RangeError

section \<open>Scheduler (simulation-p.ts)\<close>

definition initializeSimulation :: simulation where
  "initializeSimulation = \<lparr>currentTime = 0, events = []\<rparr>"

text \<open>\<open>generateId\<close> pre-increments the module-level counter and returns the new value.\<close>

definition generateId :: "nat \<Rightarrow> nat \<times> nat" where
  "generateId lastId = (Suc lastId, Suc lastId)"

definition createEvent :: "nat \<Rightarrow> simulation \<Rightarrow> int \<Rightarrow> nat \<Rightarrow> jsval \<Rightarrow> event \<times> nat" where
  "createEvent lastId sim at cb it =
     (let (i, lastId') = generateId lastId
      in (\<lparr>eid = i, status = Fired, firedAt = currentTime sim, scheduledAt = at,
           finishedAt = None, item = it, callback = cb\<rparr>, lastId'))"

text \<open>
  \<open>Array.prototype.sort\<close> is stable: elements that the comparator does not separate
  keep their order. \<open>sort_cmp\<close> is the stable insertion sort for a comparator that
  returns a number, negative when its first argument goes first.
\<close>

fun insert_cmp :: "('a \<Rightarrow> 'a \<Rightarrow> int) \<Rightarrow> 'a \<Rightarrow> 'a list \<Rightarrow> 'a list" where
  "insert_cmp cmp x [] = [x]"
| "insert_cmp cmp x (y # ys) =
     (if cmp x y \<le> 0 then x # y # ys else y # insert_cmp cmp x ys)"

definition sort_cmp :: "('a \<Rightarrow> 'a \<Rightarrow> int) \<Rightarrow> 'a list \<Rightarrow> 'a list" where
  "sort_cmp cmp xs = foldr (insert_cmp cmp) xs []"

definition by_time_desc :: "event \<Rightarrow> event \<Rightarrow> int" where
  "by_time_desc a b = scheduledAt b - scheduledAt a"

text \<open>
  \<open>scheduleEvent\<close> throws a \<open>RangeError\<close> for an event in the past (the spec's
  CausalityViolation) and otherwise returns a new array: the queue, the event with status
  \<open>Scheduled\<close> appended, sorted by descending \<open>scheduledAt\<close>. It never writes to
  \<open>sim\<close>.
\<close>

definition scheduleEvent :: "simulation \<Rightarrow> event \<Rightarrow> error + event list" where
  "scheduleEvent sim ev =
     (if scheduledAt ev < currentTime sim then Inl RangeError
      else Inr (sort_cmp by_time_desc (events sim @ [ev\<lparr>status := Scheduled\<rparr>])))"

text \<open>
  The callers' idiom \<open>sim.events = scheduleEvent(sim, e)\<close>: when \<open>scheduleEvent\<close>
  throws, the assignment does not happen. The result pairs the exception, if any, with
  the simulation after the statement.
\<close>

definition admit :: "simulation \<Rightarrow> event \<Rightarrow> error option \<times> simulation" where
  "admit sim ev =
     (case scheduleEvent sim ev of
        Inl err \<Rightarrow> (Some err, sim)
      | Inr evs \<Rightarrow> (None, sim\<lparr>events := evs\<rparr>))"

section \<open>Store (store.ts)\<close>

text \<open>
  \<open>StoreState\<close>: the items not yet claimed and the queue of \<open>resolve\<close> functions of
  the consumers that wait. A resolve function is identified by a value of type \<open>'r\<close>
  that names the pending promise it settles. The \<open>id\<close> field is never read.
\<close>

record 'r storeState =
  items :: "jsval list"
  queue :: "'r list"

text \<open>
  What a store operation returns: \<open>Promise.resolve(v)\<close>, a promise that is already
  fulfilled, or a new promise that stays pending until its resolver is called.
\<close>

datatype returned = Resolved jsval | Waiting

definition createStore :: "jsval list \<Rightarrow> 'r storeState" where
  "createStore initialItems = \<lparr>items = initialItems, queue = []\<rparr>"

text \<open>
  \<open>put\<close>: \<open>queue.shift()\<close> takes the oldest resolver, if there is one, and calls it with
  the item (the second component of the result says which promise was fulfilled with
  what); otherwise the item is pushed on \<open>items\<close>. The producer always gets
  \<open>Promise.resolve(item)\<close>.
\<close>

definition put :: "jsval \<Rightarrow> 'r storeState \<Rightarrow> returned \<times> ('r \<times> jsval) option \<times> 'r storeState" where
  "put it st =
     (case queue st of
        pendingRequest # rest \<Rightarrow> (Resolved it, Some (pendingRequest, it), st\<lparr>queue := rest\<rparr>)
      | [] \<Rightarrow> (Resolved it, None, st\<lparr>items := items st @ [it]\<rparr>))"

text \<open>
  \<open>get\<close>: \<open>items.shift()\<close> removes the oldest item, if there is one. The test
  \<open>if (pendingItem)\<close> is a test for truthiness: a falsy item has been removed from
  \<open>items\<close> but is not returned, and the consumer's resolver \<open>r\<close> is queued as when
  there was no item.
\<close>

definition get :: "'r \<Rightarrow> 'r storeState \<Rightarrow> returned \<times> 'r storeState" where
  "get r st =
     (case items st of
        [] \<Rightarrow> (Waiting, st\<lparr>queue := queue st @ [r]\<rparr>)
      | pendingItem # rest \<Rightarrow>
          if truthy pendingItem then (Resolved pendingItem, st\<lparr>items := rest\<rparr>)
          else (Waiting, st\<lparr>items := rest, queue := queue st @ [r]\<rparr>))"

text \<open>
  A sequence of store operations, oldest first, with what each one did: a \<open>put\<close>
  either queued its item or handed it to the waiting consumer \<open>r\<close>; a \<open>get\<close> either
  returned an item or left its caller waiting.
\<close>

datatype 'r storeOp = Put jsval | Get 'r

datatype 'r outcome = Deposited | Delivered 'r jsval | Received jsval | Parked

fun perform :: "'r storeOp list \<Rightarrow> 'r storeState \<Rightarrow> 'r outcome list \<times> 'r storeState" where
  "perform [] st = ([], st)"
| "perform (Put it # ops) st =
     (case put it st of (_, d, st') \<Rightarrow>
        (case perform ops st' of (rs, st'') \<Rightarrow>
           ((case d of None \<Rightarrow> Deposited | Some (r, v) \<Rightarrow> Delivered r v) # rs, st'')))"
| "perform (Get r # ops) st =
     (case get r st of (res, st') \<Rightarrow>
        (case perform ops st' of (rs, st'') \<Rightarrow>
           ((case res of Resolved v \<Rightarrow> Received v | Waiting \<Rightarrow> Parked) # rs, st'')))"

text \<open>The two queues of a store are balanced when at most one of them is non-empty.\<close>

definition balanced :: "'r storeState \<Rightarrow> bool" where
  "balanced st = (items st = [] \<or> queue st = [])"

fun truthyOp :: "'r storeOp \<Rightarrow> bool" where
  "truthyOp (Put it) = truthy it"
| "truthyOp (Get r) = True"

section \<open>Execution engine (simulation-p.ts)\<close>

text \<open>
  A promise is represented by its settlement: \<open>None\<close> when it is never fulfilled,
  \<open>Some (k, v)\<close> when it is fulfilled with \<open>v\<close> at instant \<open>k\<close>. Instants number the
  points of the single-threaded execution in the order in which they happen.

  \<open>p.then(f)\<close>, called at instant \<open>now\<close>, queues the reaction job when \<open>p\<close> is
  fulfilled, or at once when it already is: at \<open>max k now\<close>. Reaction jobs run in the
  order in which they were queued, so that instant orders the results of \<open>then\<close>; the
  reaction is given it, to read the state of the objects it closes over when it runs.
\<close>

type_synonym 'a promise = "(nat \<times> 'a) option"

definition then_p :: "nat \<Rightarrow> 'a promise \<Rightarrow> (nat \<Rightarrow> 'a \<Rightarrow> 'b) \<Rightarrow> 'b promise" where
  "then_p now p f =
     (case p of None \<Rightarrow> None | Some (k, v) \<Rightarrow> Some (max k now, f (max k now) v))"

text \<open>
  \<open>Promise.race\<close> settles as the first of its inputs to settle; of two reactions
  queued at the same instant, the one of the promise listed first was registered first.
\<close>

fun race :: "'a promise list \<Rightarrow> 'a promise" where
  "race [] = None"
| "race (p # ps) =
     (case p of
        None \<Rightarrow> race ps
      | Some (k, v) \<Rightarrow>
          (case race ps of
             None \<Rightarrow> Some (k, v)
           | Some (k', v') \<Rightarrow> if k \<le> k' then Some (k, v) else Some (k', v')))"

text \<open>
  \<open>handleEvent(sim, event, simulationProcess)\<close>, called at instant \<open>now\<close>. \<open>cb\<close> is
  the promise that \<open>event.callback(sim, event)\<close> returned; \<open>sim k\<close> is the state of
  the simulation object when the reaction queued at instant \<open>k\<close> runs.
\<close>

definition handleEvent ::
    "nat \<Rightarrow> (nat \<Rightarrow> simulation) \<Rightarrow> event \<Rightarrow> unit promise \<Rightarrow> jsval promise \<Rightarrow> event promise" where
  "handleEvent now sim ev simulationProcess cb =
     race [
       then_p now simulationProcess
         (\<lambda>k _. ev\<lparr>finishedAt := Some (currentTime (sim k)), status := Terminated\<rparr>),
       then_p now cb
         (\<lambda>k it. ev\<lparr>item := it, finishedAt := Some (currentTime (sim k)), status := Completed\<rparr>)]"

section \<open>A run of the simulation\<close>

text \<open>
  A process is user code. The model covers the processes whose body, run synchronously
  when the event is dispatched, creates and admits events
  (\<open>sim.events = scheduleEvent(sim, createEvent(sim, t, cb, item))\<close>) and then returns
  \<open>store.put(item)\<close>, \<open>store.get()\<close> or \<open>Promise.resolve(v)\<close>. What it admits and
  returns may depend on the simulation and on the event it is called with. The promise
  of such a process is fulfilled, if ever, while the loop of \<open>runSimulation\<close> runs; an
  \<open>async\<close> process that awaits is resumed by a job after the loop and is not in this class.
  \<open>callback\<close> indexes the table of processes.
\<close>

type_synonym admission = "int \<times> nat \<times> jsval"

datatype ret = ReturnPut jsval | ReturnGet | ReturnValue jsval

type_synonym process = "simulation \<Rightarrow> event \<Rightarrow> admission list \<times> ret"

text \<open>
  The state that a run reads and writes: the simulation object, the module-level counter
  \<open>lastId\<close>, the store that the processes share, and the local \<open>eventPromises\<close> of
  \<open>runSimulation\<close>, one entry for each dispatched event, in dispatch order: the instant
  of the call of \<open>handleEvent\<close>, the event given to it, and the promise that the callback
  returned. A consumer that waits in the store's queue is named by the index of its entry.
\<close>

record runState =
  theSim :: simulation
  lastId :: nat
  theStore :: "nat storeState"
  eventPromises :: "(nat \<times> event \<times> jsval promise) list"

definition initialState :: runState where
  "initialState =
     \<lparr>theSim = initializeSimulation, lastId = 0, theStore = createStore [], eventPromises = []\<rparr>"

text \<open>A statement either completes or throws; the state survives both.\<close>

datatype 'a result = Ok 'a | Threw error 'a

fun stateOf :: "'a result \<Rightarrow> 'a" where
  "stateOf (Ok s) = s"
| "stateOf (Threw err s) = s"

text \<open>
  \<open>const e = createEvent(sim, t, cb, item); sim.events = scheduleEvent(sim, e)\<close>:
  the counter has advanced even when \<open>scheduleEvent\<close> throws.
\<close>

definition admitNew :: "runState \<Rightarrow> admission \<Rightarrow> runState result" where
  "admitNew s a =
     (case a of (at, cb, it) \<Rightarrow>
        (case createEvent (lastId s) (theSim s) at cb it of (ev, lastId') \<Rightarrow>
           (case admit (theSim s) ev of
              (Some err, sim') \<Rightarrow> Threw err (s\<lparr>theSim := sim', lastId := lastId'\<rparr>)
            | (None, sim') \<Rightarrow> Ok (s\<lparr>theSim := sim', lastId := lastId'\<rparr>))))"

fun admitAll :: "runState \<Rightarrow> admission list \<Rightarrow> runState result" where
  "admitAll s [] = Ok s"
| "admitAll s (a # as) =
     (case admitNew s a of Threw err s' \<Rightarrow> Threw err s' | Ok s' \<Rightarrow> admitAll s' as)"

text \<open>The filter of \<open>runSimulation\<close>: the events that are due and not yet dispatched.\<close>

definition eligible :: "simulation \<Rightarrow> event \<Rightarrow> bool" where
  "eligible sim ev = (scheduledAt ev \<ge> currentTime sim \<and> status ev = Scheduled)"

definition eventsTodo :: "simulation \<Rightarrow> event list" where
  "eventsTodo sim = filter (eligible sim) (events sim)"

text \<open>\<open>eventsTodo.pop()\<close>: the last element, \<open>undefined\<close> for the empty array.\<close>

definition pop :: "'a list \<Rightarrow> 'a option" where
  "pop xs = (case rev xs of [] \<Rightarrow> None | x # _ \<Rightarrow> Some x)"

text \<open>
  \<open>filter\<close> copies references: the popped object is the element of \<open>sim.events\<close> at the
  last position that passes the filter, and \<open>event.status = Pending\<close> writes there.
\<close>

fun update_last :: "('a \<Rightarrow> bool) \<Rightarrow> ('a \<Rightarrow> 'a) \<Rightarrow> 'a list \<Rightarrow> 'a list" where
  "update_last P f [] = []"
| "update_last P f (x # xs) =
     (if list_ex P xs then x # update_last P f xs
      else if P x then f x # xs else x # xs)"

text \<open>
  The promise that the process returns, at instant \<open>now\<close>, where \<open>now\<close> is also the
  index of the entry to come in \<open>eventPromises\<close>. A \<open>put\<close> that finds a waiting
  consumer fulfils the promise of that consumer's entry.
\<close>

definition fulfil :: "nat \<Rightarrow> nat \<Rightarrow> jsval \<Rightarrow> (nat \<times> event \<times> jsval promise) list
    \<Rightarrow> (nat \<times> event \<times> jsval promise) list" where
  "fulfil now r v ps =
     (if r < length ps then ps[r := (fst (ps ! r), fst (snd (ps ! r)), Some (now, v))] else ps)"

definition callReturn :: "nat \<Rightarrow> event \<Rightarrow> ret \<Rightarrow> runState \<Rightarrow> runState" where
  "callReturn now ev r s =
     (case r of
        ReturnValue v \<Rightarrow> s\<lparr>eventPromises := eventPromises s @ [(now, ev, Some (now, v))]\<rparr>
      | ReturnPut it \<Rightarrow>
          (case put it (theStore s) of
             (_, d, st') \<Rightarrow>
               s\<lparr>theStore := st',
                 eventPromises :=
                   (case d of None \<Rightarrow> eventPromises s
                    | Some (c, v) \<Rightarrow> fulfil now c v (eventPromises s))
                   @ [(now, ev, Some (now, it))]\<rparr>)
      | ReturnGet \<Rightarrow>
          (case get now (theStore s) of
             (Resolved v, st') \<Rightarrow>
               s\<lparr>theStore := st', eventPromises := eventPromises s @ [(now, ev, Some (now, v))]\<rparr>
           | (Waiting, st') \<Rightarrow>
               s\<lparr>theStore := st', eventPromises := eventPromises s @ [(now, ev, None)]\<rparr>))"

text \<open>
  The head of an iteration of the loop of \<open>runSimulation\<close>: the clock advances to the
  due time of the popped event, which is marked Pending.
\<close>

definition dispatch :: "runState \<Rightarrow> event \<Rightarrow> runState" where
  "dispatch s ev =
     s\<lparr>theSim := (theSim s)\<lparr>
          currentTime := scheduledAt ev,
          events := update_last (eligible (theSim s)) (\<lambda>e. e\<lparr>status := Pending\<rparr>)
                      (events (theSim s))\<rparr>\<rparr>"

text \<open>
  The synchronous part of \<open>eventPromises.push(handleEvent(sim, event, ...))\<close>:
  \<open>handleEvent\<close> calls \<open>event.callback(sim, event)\<close>, which runs the body of the
  process. An exception thrown there leaves \<open>runSimulation\<close> before the push.
\<close>

definition invoke :: "(nat \<Rightarrow> process) \<Rightarrow> event \<Rightarrow> runState \<Rightarrow> runState result" where
  "invoke procs ev s =
     (case procs (callback ev) (theSim s) ev of
        (adms, r) \<Rightarrow>
          (case admitAll s adms of
             Threw err s' \<Rightarrow> Threw err s'
           | Ok s' \<Rightarrow> Ok (callReturn (length (eventPromises s')) ev r s')))"

text \<open>One iteration of the loop: \<open>None\<close> is the \<open>break\<close>.\<close>

definition step :: "(nat \<Rightarrow> process) \<Rightarrow> runState \<Rightarrow> runState result option" where
  "step procs s =
     (case pop (eventsTodo (theSim s)) of
        None \<Rightarrow> None
      | Some ev \<Rightarrow> Some (invoke procs (ev\<lparr>status := Pending\<rparr>) (dispatch s ev)))"

text \<open>
  The loop may run forever (a process may admit an event for the current time at every
  dispatch); the model gives it fuel and says so when it ran out.
\<close>

datatype runOutcome = Finished runState | Aborted error runState | OutOfFuel runState

fun finalState :: "runOutcome \<Rightarrow> runState" where
  "finalState (Finished s) = s"
| "finalState (Aborted err s) = s"
| "finalState (OutOfFuel s) = s"

fun runLoop :: "(nat \<Rightarrow> process) \<Rightarrow> nat \<Rightarrow> runState \<Rightarrow> runOutcome" where
  "runLoop procs 0 s = OutOfFuel s"
| "runLoop procs (Suc n) s =
     (case step procs s of
        None \<Rightarrow> Finished s
      | Some (Threw err s') \<Rightarrow> Aborted err s'
      | Some (Ok s') \<Rightarrow> runLoop procs n s')"

text \<open>
  After the loop no job has run yet: the loop is synchronous. Then the reactions run,
  those of \<open>handleEvent\<close> first, and each
  \<open>.then(newEvent => sim.events = sim.events.map(...))\<close> replaces the events that
  carry the identifier of \<open>newEvent\<close>, in the order in which the races settled. The clock
  no longer changes, so every reaction reads the final \<open>currentTime\<close>.
\<close>

definition replaceById :: "event \<Rightarrow> event list \<Rightarrow> event list" where
  "replaceById newEvent evs =
     map (\<lambda>existingEvent. if eid existingEvent = eid newEvent then newEvent else existingEvent) evs"

definition settled :: "'a promise list \<Rightarrow> (nat \<times> 'a) list" where
  "settled ps = sort_key fst (concat (map (\<lambda>p. case p of None \<Rightarrow> [] | Some kv \<Rightarrow> [kv]) ps))"

definition finalize :: "unit promise \<Rightarrow> runState \<Rightarrow> runState" where
  "finalize termination s =
     (let results = map (\<lambda>(now, ev, cb). handleEvent now (\<lambda>_. theSim s) ev termination cb)
                        (eventPromises s)
      in s\<lparr>theSim := (theSim s)\<lparr>events :=
             fold (\<lambda>(k, newEvent) evs. replaceById newEvent evs) (settled results)
                  (events (theSim s))\<rparr>\<rparr>)"

text \<open>
  \<open>runSimulation\<close>: the loop, then \<open>sim.terminate(...)\<close> at the instant that follows
  the last dispatch, then the reactions. When a process threw, \<open>sim.terminate\<close> is not
  reached and the termination promise stays pending. The statistics (a wall-clock
  duration) are not modelled.
\<close>

definition runSimulation :: "(nat \<Rightarrow> process) \<Rightarrow> nat \<Rightarrow> runState \<Rightarrow> runOutcome" where
  "runSimulation procs fuel s =
     (case runLoop procs fuel (s\<lparr>eventPromises := []\<rparr>) of
        Finished s' \<Rightarrow> Finished (finalize (Some (length (eventPromises s'), ())) s')
      | Aborted err s' \<Rightarrow> Aborted err (finalize None s')
      | OutOfFuel s' \<Rightarrow> OutOfFuel s')"

text \<open>
  Three processes: a producer returns \<open>store.put(item)\<close>, as the one of the tests
  does; a consumer returns \<open>store.get()\<close> (the one of the tests is the \<open>async\<close>
  function that awaits it); an idle process returns \<open>Promise.resolve(undefined)\<close>.
\<close>

definition producer :: "jsval \<Rightarrow> process" where
  "producer it sim ev = ([], ReturnPut it)"

definition consumer :: process where
  "consumer sim ev = ([], ReturnGet)"

definition idle :: process where
  "idle sim ev = ([], ReturnValue JUndefined)"

section \<open>Orders used in the proofs\<close>

text \<open>
  \<open>createEvent\<close> hands out identifiers in increasing order, and every admission of the
  model creates its event just before admitting it: of two events in the queue, the one
  with the smaller identifier was admitted first. \<open>queuedBefore a b\<close> is the order in
  which \<open>scheduleEvent\<close> keeps the queue: later due times first, and for equal due times
  the event admitted first.
\<close>

definition queuedBefore :: "event \<Rightarrow> event \<Rightarrow> bool" where
  "queuedBefore a b =
     (scheduledAt a > scheduledAt b \<or> (scheduledAt a = scheduledAt b \<and> eid a < eid b))"

definition queueOrdered :: "runState \<Rightarrow> bool" where
  "queueOrdered s =
     (sorted_wrt queuedBefore (events (theSim s)) \<and>
      list_all (\<lambda>e. eid e \<le> lastId s) (events (theSim s)))"

text \<open>The events dispatched so far, in dispatch order.\<close>

definition dispatched :: "runState \<Rightarrow> event list" where
  "dispatched s = map (\<lambda>(now, ev, cb). ev) (eventPromises s)"

definition logOrdered :: "runState \<Rightarrow> bool" where
  "logOrdered s =
     (sorted (map scheduledAt (dispatched s)) \<and>
      list_all (\<lambda>e. scheduledAt e \<le> currentTime (theSim s)) (dispatched s))"

section \<open>The generator-based store (resources.ts)\<close>

text \<open>
  \<open>get\<close> and \<open>put\<close> with the \<open>blocking\<close> flag are exported by \<open>src/resources.ts\<close>,
  which is not among the sources: only its tests and an example are. This section models
  them from the specification, section 4.4. A process is named by the identifier of its
  event; a store operation returns the processes that it resumes, each with the current
  time at which it resumes, and the new store.
\<close>

text \<open>
  Modelled from the spec: the \<open>Store\<close> of resources.ts, missing from the sources.
  ``\<open>putRequests\<close>: ordered list of (item, owning process, blocking-flag), deposited
  items not yet claimed; \<open>getRequests\<close>: ordered list of owning processes, consumers
  waiting for an item.''
\<close>

record putRequest =
  depositItem :: jsval
  depositOwner :: nat
  depositBlocking :: bool

record resourceStore =
  putRequests :: "putRequest list"
  getRequests :: "nat list"

datatype resumption = ConsumerResumed nat int jsval | ProducerResumed nat int

text \<open>
  Modelled from the spec: \<open>get(sim, event, store)\<close> of resources.ts, missing from the
  sources. ``If \<open>putRequests\<close> is non-empty, pop the oldest entry, deliver its item to
  the requesting process (resumes in the same turn, at the current time); if that popped
  entry's producer was parked in blocking mode, the producer also resumes now [...]. If
  \<open>putRequests\<close> is empty, enqueue the requesting process onto \<open>getRequests\<close> and
  park it.''
\<close>

definition resources_get :: "int \<Rightarrow> nat \<Rightarrow> resourceStore \<Rightarrow> resumption list \<times> resourceStore" where
  "resources_get now consumer_id st =
     (case putRequests st of
        [] \<Rightarrow> ([], st\<lparr>getRequests := getRequests st @ [consumer_id]\<rparr>)
      | d # ds \<Rightarrow>
          (ConsumerResumed consumer_id now (depositItem d)
             # (if depositBlocking d then [ProducerResumed (depositOwner d) now] else []),
           st\<lparr>putRequests := ds\<rparr>))"

text \<open>
  Modelled from the spec: \<open>put(sim, event, store, item, blocking)\<close> of resources.ts,
  missing from the sources. ``If \<open>getRequests\<close> is non-empty, pop the oldest waiting
  consumer and deliver the item immediately (consumer resumes now); the producer resumes
  now as well regardless of \<open>blocking\<close>. If \<open>getRequests\<close> is empty, enqueue
  \<open>{item, process, blocking}\<close> onto \<open>putRequests\<close>; if \<open>blocking = false\<close>, the
  producer's call returns immediately; if \<open>blocking = true\<close>, the producer parks and is
  resumed only when a future \<open>get\<close> consumes this exact entry.''
\<close>

definition resources_put ::
    "int \<Rightarrow> nat \<Rightarrow> jsval \<Rightarrow> bool \<Rightarrow> resourceStore \<Rightarrow> resumption list \<times> resourceStore" where
  "resources_put now producer_id it blocking st =
     (case getRequests st of
        c # cs \<Rightarrow>
          ([ConsumerResumed c now it, ProducerResumed producer_id now], st\<lparr>getRequests := cs\<rparr>)
      | [] \<Rightarrow>
          (if blocking then [] else [ProducerResumed producer_id now],
           st\<lparr>putRequests := putRequests st @
                [\<lparr>depositItem = it, depositOwner = producer_id, depositBlocking = blocking\<rparr>]\<rparr>))"

text \<open>
  A sequence of store operations of processes, oldest first, each with the current time
  at which it is made, and all the resumptions it causes.
\<close>

datatype resourceOp = DoPut int nat jsval bool | DoGet int nat

fun actor :: "resourceOp \<Rightarrow> nat" where
  "actor (DoPut now q it blocking) = q"
| "actor (DoGet now c) = c"

fun isGet :: "resourceOp \<Rightarrow> bool" where
  "isGet (DoPut now q it blocking) = False"
| "isGet (DoGet now c) = True"

fun resources_run :: "resourceOp list \<Rightarrow> resourceStore \<Rightarrow> resumption list \<times> resourceStore" where
  "resources_run [] st = ([], st)"
| "resources_run (DoPut now q it blocking # ops) st =
     (case resources_put now q it blocking st of (rs, st') \<Rightarrow>
        (case resources_run ops st' of (rs', st'') \<Rightarrow> (rs @ rs', st'')))"
| "resources_run (DoGet now c # ops) st =
     (case resources_get now c st of (rs, st') \<Rightarrow>
        (case resources_run ops st' of (rs', st'') \<Rightarrow> (rs @ rs', st'')))"

text \<open>The times at which the producer \<open>p\<close> resumes, among some resumptions.\<close>

fun resumedAt :: "nat \<Rightarrow> resumption list \<Rightarrow> int list" where
  "resumedAt p [] = []"
| "resumedAt p (ConsumerResumed c t v # rs) = resumedAt p rs"
| "resumedAt p (ProducerResumed q t # rs) = (if q = p then t # resumedAt p rs else resumedAt p rs)"

text \<open>The producer \<open>p\<close> is not parked on any deposit of the list.\<close>

definition notParked :: "nat \<Rightarrow> putRequest list \<Rightarrow> bool" where
  "notParked p ds = list_all (\<lambda>d. \<not> (depositOwner d = p \<and> depositBlocking d)) ds"

text \<open>
  Modelled from the spec: the third outcome of \<open>handleEvent\<close> of simulation.ts (the
  generator-based engine), missing from the sources. ``The process returns a final value:
  status \<open>\<rightarrow>\<close> Completed, \<open>finishedAt = currentTime\<close>, \<open>item = result\<close>.''
\<close>

definition completeEvent :: "int \<Rightarrow> event \<Rightarrow> jsval \<Rightarrow> event" where
  "completeEvent now ev res = ev\<lparr>status := Completed, finishedAt := Some now, item := res\<rparr>"

section \<open>Invariants of a run\<close>

text \<open>The identifiers of the queued events are distinct.\<close>

definition distinctIds :: "runState \<Rightarrow> bool" where
  "distinctIds s = distinct (map eid (events (theSim s)))"

text \<open>
  Every dispatched event is in the queue as it was given to its process, with status
  Pending, and no event is dispatched twice.
\<close>

definition logInQueue :: "runState \<Rightarrow> bool" where
  "logInQueue s =
     (list_all (\<lambda>ev. ev \<in> set (events (theSim s)) \<and> status ev = Pending) (dispatched s) \<and>
      distinct (map eid (dispatched s)))"

text \<open>
  The call of \<open>handleEvent\<close> of an entry and the fulfilment of its promise, if any,
  happened at the instant of a dispatch.
\<close>

fun entryBounded :: "nat \<Rightarrow> nat \<times> event \<times> jsval promise \<Rightarrow> bool" where
  "entryBounded n (now, ev, None) = (now < n)"
| "entryBounded n (now, ev, Some (k, v)) = (now < n \<and> k < n)"

definition stampsBounded :: "runState \<Rightarrow> bool" where
  "stampsBounded s = list_all (entryBounded (length (eventPromises s))) (eventPromises s)"

definition runInvariant :: "runState \<Rightarrow> bool" where
  "runInvariant s = (queueOrdered s \<and> distinctIds s \<and> logInQueue s \<and> stampsBounded s)"

text \<open>
  What \<open>handleEvent\<close> produces for an entry of \<open>eventPromises\<close> when the loop has
  ended at clock \<open>t\<close>, and the instant at which it does.
\<close>

fun settledEvent :: "int \<Rightarrow> nat \<times> event \<times> jsval promise \<Rightarrow> event" where
  "settledEvent t (now, ev, None) = ev\<lparr>finishedAt := Some t, status := Terminated\<rparr>"
| "settledEvent t (now, ev, Some (k, v)) =
     ev\<lparr>item := v, finishedAt := Some t, status := Completed\<rparr>"

fun settledAt :: "nat \<Rightarrow> nat \<times> event \<times> jsval promise \<Rightarrow> nat" where
  "settledAt n (now, ev, None) = max n now"
| "settledAt n (now, ev, Some (k, v)) = max k now"

section \<open>Admission order\<close>

text \<open>
  The script that prepares a run: events, created before in any order, are admitted
  one after the other by \<open>sim.events = scheduleEvent(sim, e)\<close>; an exception ends the
  script.
\<close>

fun admitEvents :: "simulation \<Rightarrow> event list \<Rightarrow> error option \<times> simulation" where
  "admitEvents sim [] = (None, sim)"
| "admitEvents sim (e # es) =
     (case admit sim e of
        (Some err, sim') \<Rightarrow> (Some err, sim')
      | (None, sim') \<Rightarrow> admitEvents sim' es)"

text \<open>
  The place of an event in the order of admission, for a run prepared by admitting the
  events \<open>es\<close> in that order. An event of \<open>es\<close>, known by its identifier, has its
  position in \<open>es\<close>. The other events of the queue are admitted by processes during
  the run; a process admits an event when it has just created it, so these come after
  all of \<open>es\<close>, in the order of their identifiers.
\<close>

definition admissionRank :: "event list \<Rightarrow> event \<Rightarrow> nat" where
  "admissionRank es e =
     (if eid e \<in> set (map eid es) then length (takeWhile (\<lambda>x. eid x \<noteq> eid e) es)
      else length es + eid e)"

text \<open>
  The order in which \<open>scheduleEvent\<close> keeps the queue, for a rank \<open>rk\<close> of the events:
  later due times first, and for equal due times the event of smaller rank.
\<close>

definition rankedBefore :: "(event \<Rightarrow> nat) \<Rightarrow> event \<Rightarrow> event \<Rightarrow> bool" where
  "rankedBefore rk a b =
     (scheduledAt a > scheduledAt b \<or> (scheduledAt a = scheduledAt b \<and> rk a < rk b))"

definition rankOrdered :: "event list \<Rightarrow> runState \<Rightarrow> bool" where
  "rankOrdered es s =
     (sorted_wrt (rankedBefore (admissionRank es)) (events (theSim s)) \<and>
      list_all (\<lambda>e. admissionRank es e \<le> length es + lastId s) (events (theSim s)) \<and>
      list_all (\<lambda>e. eid e \<le> lastId s) es)"

section \<open>Scheduler: admission\<close>

text \<open>
  C10. A simulation returned by \<open>initializeSimulation\<close> has \<open>currentTime = 0\<close> and an
  empty queue, so \<open>scheduleEvent\<close> accepts as its first event any event whose
  \<open>scheduledAt\<close> is non-negative: the result is the one-element queue holding the event
  with status \<open>Scheduled\<close>.
\<close>

theorem initializeSimulation_fresh:
  "currentTime initializeSimulation = 0 \<and> events initializeSimulation = [] \<and>
   (0 \<le> scheduledAt ev \<longrightarrow>
      scheduleEvent initializeSimulation ev = Inr [ev\<lparr>status := Scheduled\<rparr>])"
  by (simp add: initializeSimulation_def scheduleEvent_def sort_cmp_def)

theorem initializeSimulation_fresh_witness:
  "(0::int) \<le> scheduledAt (fst (createEvent 0 initializeSimulation 7 0 JUndefined)) \<and>
   currentTime initializeSimulation = 0 \<and> events initializeSimulation = [] \<and>
   scheduleEvent initializeSimulation (fst (createEvent 0 initializeSimulation 7 0 JUndefined))
     = Inr [\<lparr>eid = 1, status = Scheduled, firedAt = 0, scheduledAt = 7,
             finishedAt = None, item = JUndefined, callback = 0\<rparr>]"
  using initializeSimulation_fresh [of "fst (createEvent 0 initializeSimulation 7 0 JUndefined)"]
  by (simp add: createEvent_def generateId_def initializeSimulation_def)

text \<open>
  C3. \<open>scheduleEvent sim e\<close> fails, with the \<open>RangeError\<close> that the spec calls
  CausalityViolation, exactly when \<open>e.scheduledAt < sim.currentTime\<close>. The error is the
  result of the call itself (a synchronous throw), and the statement
  \<open>sim.events = scheduleEvent(sim, e)\<close> then leaves the simulation, and so its queue, as
  it was.
\<close>

theorem scheduleEvent_causality:
  "((\<exists>err. scheduleEvent sim ev = Inl err) \<longleftrightarrow> scheduledAt ev < currentTime sim) \<and>
   (scheduleEvent sim ev = Inl RangeError \<longleftrightarrow> scheduledAt ev < currentTime sim) \<and>
   (scheduledAt ev < currentTime sim \<longrightarrow> admit sim ev = (Some RangeError, sim))"
  by (simp add: scheduleEvent_def admit_def)

theorem scheduleEvent_causality_witness:
  "scheduledAt \<lparr>eid = 1, status = Fired, firedAt = 5, scheduledAt = 3,
                finishedAt = None, item = JUndefined, callback = 0\<rparr>
     < currentTime \<lparr>currentTime = 5, events = []\<rparr> \<and>
   scheduleEvent \<lparr>currentTime = 5, events = []\<rparr>
     \<lparr>eid = 1, status = Fired, firedAt = 5, scheduledAt = 3,
      finishedAt = None, item = JUndefined, callback = 0\<rparr> = Inl RangeError \<and>
   admit \<lparr>currentTime = 5, events = []\<rparr>
     \<lparr>eid = 1, status = Fired, firedAt = 5, scheduledAt = 3,
      finishedAt = None, item = JUndefined, callback = 0\<rparr>
     = (Some RangeError, \<lparr>currentTime = 5, events = []\<rparr>)"
  using scheduleEvent_causality [of "\<lparr>currentTime = 5, events = []\<rparr>"
      "\<lparr>eid = 1, status = Fired, firedAt = 5, scheduledAt = 3,
        finishedAt = None, item = JUndefined, callback = 0\<rparr>"]
  by simp

section \<open>Store: matching\<close>

lemma put_get_truthy:
  "truthy x \<Longrightarrow>
   perform [Put x, Get r] (createStore []) = ([Deposited, Received x], createStore [])"
  by (simp add: put_def get_def createStore_def)

lemma put_keeps_balanced: "balanced st \<Longrightarrow> balanced (snd (snd (put it st)))"
  by (auto simp: balanced_def put_def split: list.splits)

lemma get_keeps_balanced:
  "balanced st \<Longrightarrow> list_all truthy (items st) \<Longrightarrow> balanced (snd (get r st))"
  by (auto simp: balanced_def get_def split: list.splits)

lemma put_keeps_truthy:
  "list_all truthy (items st) \<Longrightarrow> truthy it \<Longrightarrow>
   list_all truthy (items (snd (snd (put it st))))"
  by (auto simp: put_def split: list.splits)

lemma get_keeps_truthy:
  "list_all truthy (items st) \<Longrightarrow> list_all truthy (items (snd (get r st)))"
  by (auto simp: get_def split: list.splits)

text \<open>
  As long as every deposited item is truthy, the two queues stay balanced through any
  sequence of operations.
\<close>

lemma perform_balanced_truthy:
  "balanced st \<Longrightarrow> list_all truthy (items st) \<Longrightarrow> list_all truthyOp ops \<Longrightarrow>
   balanced (snd (perform ops st)) \<and> list_all truthy (items (snd (perform ops st)))"
proof (induction ops arbitrary: st)
  case Nil
  then show ?case by simp
next
  case (Cons op ops)
  show ?case
  proof (cases op)
    case (Put it)
    obtain a d st' where p: "put it st = (a, d, st')" by (cases "put it st") auto
    have "balanced st'" using put_keeps_balanced [OF Cons.prems(1), of it] p by simp
    moreover have "list_all truthy (items st')"
      using put_keeps_truthy [OF Cons.prems(2), of it] Cons.prems(3) Put p by simp
    ultimately have
      "balanced (snd (perform ops st')) \<and> list_all truthy (items (snd (perform ops st')))"
      using Cons.IH Cons.prems(3) by simp
    then show ?thesis using Put p by (auto split: prod.splits)
  next
    case (Get r)
    obtain a st' where g: "get r st = (a, st')" by (cases "get r st") auto
    have "balanced st'" using get_keeps_balanced [OF Cons.prems(1,2), of r] g by simp
    moreover have "list_all truthy (items st')"
      using get_keeps_truthy [OF Cons.prems(2), of r] g by simp
    ultimately have
      "balanced (snd (perform ops st')) \<and> list_all truthy (items (snd (perform ops st')))"
      using Cons.IH Cons.prems(3) by simp
    then show ?thesis using Get g by (auto split: prod.splits)
  qed
qed

lemma perform_puts:
  "queue st = [] \<Longrightarrow>
   perform (map Put xs @ ops) st =
     (replicate (length xs) Deposited @ fst (perform ops (st\<lparr>items := items st @ xs\<rparr>)),
      snd (perform ops (st\<lparr>items := items st @ xs\<rparr>)))"
proof (induction xs arbitrary: st)
  case Nil
  then show ?case by simp
next
  case (Cons x xs)
  have "queue (st\<lparr>items := items st @ [x]\<rparr>) = []" using Cons.prems by simp
  from Cons.IH [OF this] show ?case using Cons.prems
    by (simp add: put_def split: prod.splits)
qed

lemma perform_gets:
  "list_all truthy ys \<Longrightarrow> length rs \<le> length ys \<Longrightarrow>
   perform (map Get rs) \<lparr>items = ys, queue = []\<rparr> =
     (map Received (take (length rs) ys), \<lparr>items = drop (length rs) ys, queue = []\<rparr>)"
proof (induction rs arbitrary: ys)
  case Nil
  then show ?case by simp
next
  case (Cons r rs)
  then obtain y ys' where ys: "ys = y # ys'" by (cases ys) auto
  with Cons.prems have "list_all truthy ys'" "length rs \<le> length ys'" "truthy y" by auto
  from Cons.IH [OF this(1,2)] show ?case using ys \<open>truthy y\<close>
    by (simp add: get_def)
qed

text \<open>
  With truthy items only, \<open>N\<close> deposits followed by \<open>M < N\<close> requests serve the
  requests in deposit order and leave the last \<open>N - M\<close> items queued.
\<close>

lemma fifo_truthy:
  "list_all truthy xs \<Longrightarrow> length rs < length xs \<Longrightarrow>
   perform (map Put xs @ map Get rs) (createStore []) =
     (replicate (length xs) Deposited @ map Received (take (length rs) xs),
      \<lparr>items = drop (length rs) xs, queue = []\<rparr>)"
  using perform_puts [of "createStore []" xs "map Get rs"] perform_gets [of xs rs]
  by (simp add: createStore_def)

text \<open>
  On the consumers' side the matching is first in, first out for all items: requests
  that find the store empty wait in order, and each later deposit goes to the oldest
  of them.
\<close>

lemma perform_waiting_gets:
  "items st = [] \<Longrightarrow>
   perform (map Get rs @ ops) st =
     (replicate (length rs) Parked @ fst (perform ops (st\<lparr>queue := queue st @ rs\<rparr>)),
      snd (perform ops (st\<lparr>queue := queue st @ rs\<rparr>)))"
proof (induction rs arbitrary: st)
  case Nil
  then show ?case by simp
next
  case (Cons r rs)
  have "items (st\<lparr>queue := queue st @ [r]\<rparr>) = []" using Cons.prems by simp
  from Cons.IH [OF this] show ?case using Cons.prems
    by (simp add: get_def split: prod.splits)
qed

lemma perform_deliveries:
  "length xs \<le> length rs \<Longrightarrow>
   perform (map Put xs) \<lparr>items = [], queue = rs\<rparr> =
     (map (\<lambda>(r, x). Delivered r x) (zip (take (length xs) rs) xs),
      \<lparr>items = [], queue = drop (length xs) rs\<rparr>)"
proof (induction xs arbitrary: rs)
  case Nil
  then show ?case by simp
next
  case (Cons x xs)
  then obtain r rs' where rs: "rs = r # rs'" by (cases rs) auto
  with Cons.prems have "length xs \<le> length rs'" by simp
  from Cons.IH [OF this] show ?case using rs by (simp add: put_def)
qed

lemma fifo_consumers:
  "length xs \<le> length rs \<Longrightarrow>
   perform (map Get rs @ map Put xs) (createStore []) =
     (replicate (length rs) Parked
        @ map (\<lambda>(r, x). Delivered r x) (zip (take (length xs) rs) xs),
      \<lparr>items = [], queue = drop (length xs) rs\<rparr>)"
  using perform_waiting_gets [of "createStore []" rs "map Put xs"] perform_deliveries [of xs rs]
  by (simp add: createStore_def)

text \<open>
  C9. A single \<open>put\<close> of \<open>x\<close> into a fresh store followed by a single \<open>get\<close> should
  return \<open>x\<close>. It does for a truthy \<open>x\<close> (\<open>put_get_truthy\<close>). For the empty string
  the \<open>get\<close> removes the item from the store, does not return it, and leaves its caller
  waiting in the queue.
\<close>

theorem get_loses_empty_string:
  "perform [Put (JStr ''''), Get (0::nat)] (createStore [])
     = ([Deposited, Parked], \<lparr>items = [], queue = [0]\<rparr>)"
  by (simp add: put_def get_def createStore_def)

text \<open>
  C5. After every sequence of operations at most one of the two queues should be
  non-empty. It is so while the deposited items are truthy
  (\<open>perform_balanced_truthy\<close>). After the deposits \<open>0\<close> and \<open>7\<close> and one request, the
  item \<open>7\<close> and the consumer are both queued, unmatched.
\<close>

theorem falsy_deposit_unbalances_store:
  "snd (perform [Put (JNum 0), Put (JNum 7), Get (0::nat)] (createStore []))
     = \<lparr>items = [JNum 7], queue = [0]\<rparr> \<and>
   \<not> balanced (snd (perform [Put (JNum 0), Put (JNum 7), Get (0::nat)] (createStore [])))"
  by (simp add: put_def get_def createStore_def balanced_def)

text \<open>
  C4. \<open>N\<close> deposits followed by \<open>M < N\<close> requests should serve the requests in deposit
  order and leave \<open>N - M\<close> items. It is so while the deposited items are truthy
  (\<open>fifo_truthy\<close>). With the deposits \<open>a\<close>, the empty string and \<open>b\<close>, and two
  requests, the second request is not served: the second deposit is dropped and the
  consumer waits although \<open>b\<close> is queued.
\<close>

theorem falsy_deposit_breaks_fifo:
  "perform [Put (JStr ''a''), Put (JStr ''''), Put (JStr ''b''), Get (0::nat), Get 1]
     (createStore [])
     = ([Deposited, Deposited, Deposited, Received (JStr ''a''), Parked],
        \<lparr>items = [JStr ''b''], queue = [1]\<rparr>)"
  by (simp add: put_def get_def createStore_def)

section \<open>Execution engine: completion and termination\<close>

lemma handleEvent_callback_first:
  "k < kt \<Longrightarrow> now < kt \<Longrightarrow>
   handleEvent now sim ev (Some (kt, u)) (Some (k, v)) =
     Some (max k now,
           ev\<lparr>item := v, finishedAt := Some (currentTime (sim (max k now))),
              status := Completed\<rparr>)"
  by (simp add: handleEvent_def then_p_def max_def)

lemma handleEvent_no_termination:
  "handleEvent now sim ev None (Some (k, v)) =
     Some (max k now,
           ev\<lparr>item := v, finishedAt := Some (currentTime (sim (max k now))),
              status := Completed\<rparr>)"
  by (simp add: handleEvent_def then_p_def)

text \<open>
  C7 (as stated: every dispatched event whose process runs to a final value is
  produced by \<open>handleEvent\<close> as Completed). \<open>handleEvent\<close> races the process against the
  termination promise, which \<open>runSimulation\<close> resolves as soon as its loop ends, before
  any job has run. A process that reaches its final value in a later job, as the
  \<open>async\<close> consumer of the tests does after its \<open>await\<close>, completes after that: here
  the termination promise is resolved at instant 1 and the process returns
  \<open>foobar\<close> at instant 2, and \<open>handleEvent\<close> produces the event with status
  Terminated and without the result.
\<close>

theorem late_completion_is_terminated:
  "handleEvent 0 (\<lambda>_. \<lparr>currentTime = 40, events = []\<rparr>)
     \<lparr>eid = 1, status = Pending, firedAt = 0, scheduledAt = 40,
      finishedAt = None, item = JUndefined, callback = 0\<rparr>
     (Some (1, ())) (Some (2, JStr ''foobar''))
   = Some (1, \<lparr>eid = 1, status = Terminated, firedAt = 0, scheduledAt = 40,
               finishedAt = Some 40, item = JUndefined, callback = 0\<rparr>)"
  by (simp add: handleEvent_def then_p_def)

text \<open>
  C7 (amended). For every event whose process's promise is fulfilled with a final
  value before the termination promise is resolved, \<open>handleEvent\<close>, called before that
  promise is resolved as \<open>runSimulation\<close> calls it, produces that event with status
  Completed and \<open>item\<close> equal to the value; the identifier, \<open>firedAt\<close>,
  \<open>scheduledAt\<close> and the callback are those of the event. Nothing is said of
  \<open>finishedAt\<close>.
\<close>

theorem handleEvent_completed:
  "k < kt \<and> now < kt \<longrightarrow>
     (\<exists>j e. handleEvent now sim ev (Some (kt, u)) (Some (k, v)) = Some (j, e) \<and>
            status e = Completed \<and> item e = v \<and> eid e = eid ev \<and>
            firedAt e = firedAt ev \<and> scheduledAt e = scheduledAt ev \<and>
            callback e = callback ev)"
  using handleEvent_callback_first [of k kt now sim ev u v] by simp

theorem handleEvent_completed_witness:
  "(3::nat) < 5 \<and> (3::nat) < 5 \<and>
   (\<exists>j e. handleEvent 3 (\<lambda>_. \<lparr>currentTime = 40, events = []\<rparr>)
             \<lparr>eid = 1, status = Pending, firedAt = 0, scheduledAt = 30,
              finishedAt = None, item = JUndefined, callback = 0\<rparr>
             (Some (5, ())) (Some (3, JStr ''foobar'')) = Some (j, e) \<and>
          status e = Completed \<and> item e = JStr ''foobar'' \<and> eid e = 1 \<and>
          firedAt e = 0 \<and> scheduledAt e = 30 \<and> callback e = 0)"
  using handleEvent_completed [of 3 5 3 "\<lambda>_. \<lparr>currentTime = 40, events = []\<rparr>"
      "\<lparr>eid = 1, status = Pending, firedAt = 0, scheduledAt = 30,
        finishedAt = None, item = JUndefined, callback = 0\<rparr>" "()" "JStr ''foobar''"]
  by simp

text \<open>
  C6 (as stated: a process still parked on a store wait when the loop stops never gets
  a terminal status). One consumer, dispatched at time 0 on an empty store: when the
  run is over the consumer still waits in the store's queue, and its event is in the
  queue of the simulation with status Terminated.
\<close>

theorem parked_consumer_is_terminated:
  "runSimulation (\<lambda>_. consumer) 2 (stateOf (admitAll initialState [(0, 0, JUndefined)]))
   = Finished
       \<lparr>theSim = \<lparr>currentTime = 0,
                  events = [\<lparr>eid = 1, status = Terminated, firedAt = 0, scheduledAt = 0,
                             finishedAt = Some 0, item = JUndefined, callback = 0\<rparr>]\<rparr>,
        lastId = 1,
        theStore = \<lparr>items = [], queue = [0]\<rparr>,
        eventPromises = [(0, \<lparr>eid = 1, status = Pending, firedAt = 0, scheduledAt = 0,
                               finishedAt = None, item = JUndefined, callback = 0\<rparr>, None)]\<rparr>"
  by code_simp

text \<open>
  A process whose promise is never fulfilled loses the race as soon as the termination
  promise is resolved.
\<close>

lemma handleEvent_termination_only:
  "handleEvent now sim ev (Some (kt, u)) None =
     Some (max kt now,
           ev\<lparr>finishedAt := Some (currentTime (sim (max kt now))), status := Terminated\<rparr>)"
  by (simp add: handleEvent_def then_p_def)

section \<open>Scheduler: the order of the queue\<close>

lemma insert_cmp_set: "set (insert_cmp cmp x xs) = insert x (set xs)"
  by (induction xs) auto

lemma insert_cmp_ordered:
  "sorted_wrt queuedBefore L \<Longrightarrow>
   (\<forall>z\<in>set L. scheduledAt z = scheduledAt y \<longrightarrow> eid y < eid z) \<Longrightarrow>
   sorted_wrt queuedBefore (insert_cmp by_time_desc y L)"
proof (induction L)
  case Nil
  then show ?case by simp
next
  case (Cons z zs)
  show ?case
  proof (cases "by_time_desc y z \<le> 0")
    case True
    then have le: "scheduledAt z \<le> scheduledAt y" by (simp add: by_time_desc_def)
    have "queuedBefore y z" using le Cons.prems(2) by (auto simp: queuedBefore_def)
    moreover have "\<forall>w\<in>set zs. queuedBefore y w"
    proof
      fix w assume w: "w \<in> set zs"
      then have "queuedBefore z w" using Cons.prems(1) by simp
      then have "scheduledAt w \<le> scheduledAt y" using le by (auto simp: queuedBefore_def)
      then show "queuedBefore y w" using Cons.prems(2) w by (auto simp: queuedBefore_def)
    qed
    ultimately show ?thesis using True Cons.prems(1) by simp
  next
    case False
    then have lt: "scheduledAt y < scheduledAt z" by (simp add: by_time_desc_def)
    have "sorted_wrt queuedBefore (insert_cmp by_time_desc y zs)"
      using Cons.IH Cons.prems by simp
    moreover have "\<forall>w\<in>set (insert_cmp by_time_desc y zs). queuedBefore z w"
      using Cons.prems(1) lt by (auto simp: insert_cmp_set queuedBefore_def)
    ultimately show ?thesis using False by simp
  qed
qed

lemma resort_ordered:
  "sorted_wrt queuedBefore xs \<Longrightarrow> \<forall>y\<in>set xs. eid y < eid x \<Longrightarrow>
   sorted_wrt queuedBefore (foldr (insert_cmp by_time_desc) xs [x]) \<and>
   set (foldr (insert_cmp by_time_desc) xs [x]) = insert x (set xs)"
proof (induction xs)
  case Nil
  then show ?case by simp
next
  case (Cons y ys)
  let ?L = "foldr (insert_cmp by_time_desc) ys [x]"
  have ih: "sorted_wrt queuedBefore ?L" "set ?L = insert x (set ys)"
    using Cons.IH Cons.prems by simp_all
  have "\<forall>z\<in>set ?L. scheduledAt z = scheduledAt y \<longrightarrow> eid y < eid z"
    using ih(2) Cons.prems by (auto simp: queuedBefore_def)
  from insert_cmp_ordered [OF ih(1) this] show ?case
    using ih(2) by (auto simp: insert_cmp_set)
qed

lemma scheduleEvent_ordered:
  assumes "sorted_wrt queuedBefore (events sim)" "\<forall>y\<in>set (events sim). eid y < eid ev"
      and "scheduleEvent sim ev = Inr evs"
  shows "sorted_wrt queuedBefore evs \<and> set evs = insert (ev\<lparr>status := Scheduled\<rparr>) (set (events sim))"
proof -
  have "evs = foldr (insert_cmp by_time_desc) (events sim) [ev\<lparr>status := Scheduled\<rparr>]"
    using assms(3) by (simp add: scheduleEvent_def sort_cmp_def split: if_splits)
  then show ?thesis
    using resort_ordered [of "events sim" "ev\<lparr>status := Scheduled\<rparr>"] assms(1,2) by simp
qed



lemma admitNew_queueOrdered:
  assumes "queueOrdered s"
  shows "queueOrdered (stateOf (admitNew s a))"
proof -
  obtain at cb it where a: "a = (at, cb, it)" by (cases a) auto
  let ?ev = "\<lparr>eid = Suc (lastId s), status = Fired, firedAt = currentTime (theSim s),
              scheduledAt = at, finishedAt = None, item = it, callback = cb\<rparr>"
  have ord: "sorted_wrt queuedBefore (events (theSim s))"
    and ids: "\<forall>y\<in>set (events (theSim s)). eid y \<le> lastId s"
    using assms by (simp_all add: queueOrdered_def list_all_iff)
  show ?thesis
  proof (cases "scheduleEvent (theSim s) ?ev")
    case (Inl err)
    then show ?thesis using a ord ids
      by (auto simp: admitNew_def createEvent_def generateId_def admit_def queueOrdered_def
            list_all_iff)
  next
    case (Inr evs)
    have "\<forall>y\<in>set (events (theSim s)). eid y < eid ?ev" using ids by auto
    from scheduleEvent_ordered [OF ord this Inr]
    have "sorted_wrt queuedBefore evs" "set evs = insert (?ev\<lparr>status := Scheduled\<rparr>) (set (events (theSim s)))"
      by simp_all
    then show ?thesis using a Inr ids
      by (auto simp: admitNew_def createEvent_def generateId_def admit_def queueOrdered_def
            list_all_iff)
  qed
qed

lemma admitNew_keeps:
  "currentTime (theSim (stateOf (admitNew s a))) = currentTime (theSim s) \<and>
   eventPromises (stateOf (admitNew s a)) = eventPromises s \<and>
   theStore (stateOf (admitNew s a)) = theStore s"
  by (cases a; cases "scheduleEvent (theSim s) (fst (createEvent (lastId s) (theSim s) (fst a) (fst (snd a)) (snd (snd a))))")
     (auto simp: admitNew_def admit_def createEvent_def generateId_def split: prod.splits sum.splits)

lemma admitAll_queueOrdered:
  "queueOrdered s \<Longrightarrow> queueOrdered (stateOf (admitAll s as))"
proof (induction as arbitrary: s)
  case Nil
  then show ?case by simp
next
  case (Cons a as)
  have q: "queueOrdered (stateOf (admitNew s a))" using admitNew_queueOrdered [OF Cons.prems] .
  show ?case
  proof (cases "admitNew s a")
    case (Ok s')
    then show ?thesis using q Cons.IH [of s'] by simp
  next
    case (Threw err s')
    then show ?thesis using q by simp
  qed
qed

lemma admitAll_keeps:
  "currentTime (theSim (stateOf (admitAll s as))) = currentTime (theSim s) \<and>
   eventPromises (stateOf (admitAll s as)) = eventPromises s \<and>
   theStore (stateOf (admitAll s as)) = theStore s"
proof (induction as arbitrary: s)
  case Nil
  then show ?case by simp
next
  case (Cons a as)
  show ?case
  proof (cases "admitNew s a")
    case (Ok s')
    then show ?thesis using admitNew_keeps [of s a] Cons.IH [of s'] by simp
  next
    case (Threw err s')
    then show ?thesis using admitNew_keeps [of s a] by simp
  qed
qed


lemma update_last_map:
  "(\<And>x. key (f x) = key x) \<Longrightarrow> map key (update_last P f xs) = map key xs"
  by (induction xs) auto

lemma queuedBefore_keys:
  "sorted_wrt queuedBefore xs \<longleftrightarrow>
   sorted_wrt (\<lambda>a b. fst a > fst b \<or> (fst a = fst b \<and> snd a < snd b))
     (map (\<lambda>e. (scheduledAt e, eid e)) xs)"
  by (simp add: sorted_wrt_map queuedBefore_def [abs_def])

lemma mark_pending_ordered:
  "sorted_wrt queuedBefore (update_last P (\<lambda>e. e\<lparr>status := Pending\<rparr>) xs)
     = sorted_wrt queuedBefore xs"
  unfolding queuedBefore_keys
  by (simp add: update_last_map [where key = "\<lambda>e. (scheduledAt e, eid e)"])

lemma mark_pending_ids:
  "list_all (\<lambda>e. eid e \<le> n) (update_last P (\<lambda>e. e\<lparr>status := Pending\<rparr>) xs)
     = list_all (\<lambda>e. eid e \<le> n) xs"
  by (induction xs) auto

lemma pop_Some: "pop xs = Some x \<longleftrightarrow> xs \<noteq> [] \<and> x = last xs"
  by (cases xs rule: rev_cases) (auto simp: pop_def)

lemma pop_None: "pop xs = None \<longleftrightarrow> xs = []"
  by (cases xs rule: rev_cases) (auto simp: pop_def)

lemma popped_eligible:
  "pop (eventsTodo sim) = Some ev \<Longrightarrow> eligible sim ev \<and> ev \<in> set (events sim)"
proof -
  assume "pop (eventsTodo sim) = Some ev"
  then have "ev \<in> set (eventsTodo sim)" by (auto simp: pop_Some)
  then show ?thesis by (simp add: eventsTodo_def)
qed

lemma fulfil_dispatched:
  "map (\<lambda>(now, ev, cb). ev) (fulfil now c v ps) = map (\<lambda>(now, ev, cb). ev) ps"
  by (auto simp: fulfil_def map_update list_update_same_conv split: prod.splits)

lemma callReturn_keeps:
  "theSim (callReturn now ev r s) = theSim s \<and> lastId (callReturn now ev r s) = lastId s \<and>
   dispatched (callReturn now ev r s) = dispatched s @ [ev]"
  by (cases r)
     (auto simp: callReturn_def dispatched_def fulfil_dispatched
           split: prod.splits option.splits returned.splits)


lemma dispatch_queueOrdered: "queueOrdered s \<Longrightarrow> queueOrdered (dispatch s ev)"
  by (simp add: queueOrdered_def dispatch_def mark_pending_ordered mark_pending_ids)

lemma invoke_queueOrdered: "queueOrdered s \<Longrightarrow> queueOrdered (stateOf (invoke procs ev s))"
proof -
  assume q: "queueOrdered s"
  obtain adms r where p: "procs (callback ev) (theSim s) ev = (adms, r)"
    by (cases "procs (callback ev) (theSim s) ev") auto
  have "queueOrdered (stateOf (admitAll s adms))" using admitAll_queueOrdered [OF q] .
  then show ?thesis using p
    by (cases "admitAll s adms") (auto simp: invoke_def queueOrdered_def callReturn_keeps)
qed

lemma step_queueOrdered:
  "queueOrdered s \<Longrightarrow> step procs s = Some r \<Longrightarrow> queueOrdered (stateOf r)"
  by (auto simp: step_def split: option.splits
           intro: invoke_queueOrdered dispatch_queueOrdered)

lemma invoke_clock:
  "currentTime (theSim (stateOf (invoke procs ev s))) = currentTime (theSim s)"
proof -
  obtain adms r where p: "procs (callback ev) (theSim s) ev = (adms, r)"
    by (cases "procs (callback ev) (theSim s) ev") auto
  show ?thesis using p admitAll_keeps [of s adms]
    by (cases "admitAll s adms") (auto simp: invoke_def callReturn_keeps)
qed

lemma invoke_dispatched:
  "dispatched (stateOf (invoke procs ev s)) = dispatched s \<or>
   dispatched (stateOf (invoke procs ev s)) = dispatched s @ [ev]"
proof -
  obtain adms r where p: "procs (callback ev) (theSim s) ev = (adms, r)"
    by (cases "procs (callback ev) (theSim s) ev") auto
  have "dispatched (stateOf (admitAll s adms)) = dispatched s"
    using admitAll_keeps [of s adms] by (simp add: dispatched_def)
  then show ?thesis using p
    by (cases "admitAll s adms") (auto simp: invoke_def callReturn_keeps)
qed

lemma step_clock:
  assumes "step procs s = Some r"
  shows "currentTime (theSim s) \<le> currentTime (theSim (stateOf r))"
proof -
  from assms obtain ev where ev: "pop (eventsTodo (theSim s)) = Some ev"
    and r: "r = invoke procs (ev\<lparr>status := Pending\<rparr>) (dispatch s ev)"
    by (auto simp: step_def split: option.splits)
  have "currentTime (theSim s) \<le> scheduledAt ev"
    using popped_eligible [OF ev] by (simp add: eligible_def)
  then show ?thesis using r by (simp add: invoke_clock dispatch_def)
qed

lemma step_logOrdered:
  assumes "logOrdered s" "step procs s = Some r"
  shows "logOrdered (stateOf r)"
proof -
  from assms(2) obtain ev where ev: "pop (eventsTodo (theSim s)) = Some ev"
    and r: "r = invoke procs (ev\<lparr>status := Pending\<rparr>) (dispatch s ev)"
    by (auto simp: step_def split: option.splits)
  have le: "currentTime (theSim s) \<le> scheduledAt ev"
    using popped_eligible [OF ev] by (simp add: eligible_def)
  have clock: "currentTime (theSim (stateOf r)) = scheduledAt ev"
    using r by (simp add: invoke_clock dispatch_def)
  have old: "dispatched (dispatch s ev) = dispatched s"
    by (simp add: dispatched_def dispatch_def)
  have srt: "sorted (map scheduledAt (dispatched s))"
    and below: "\<forall>e\<in>set (dispatched s). scheduledAt e \<le> currentTime (theSim s)"
    using assms(1) by (simp_all add: logOrdered_def list_all_iff)
  from invoke_dispatched [of procs "ev\<lparr>status := Pending\<rparr>" "dispatch s ev"]
  show ?thesis
  proof
    assume "dispatched (stateOf (invoke procs (ev\<lparr>status := Pending\<rparr>) (dispatch s ev)))
              = dispatched (dispatch s ev)"
    then show ?thesis using r old srt below le clock
      by (auto simp: logOrdered_def list_all_iff)
  next
    assume "dispatched (stateOf (invoke procs (ev\<lparr>status := Pending\<rparr>) (dispatch s ev)))
              = dispatched (dispatch s ev) @ [ev\<lparr>status := Pending\<rparr>]"
    then show ?thesis using r old srt below le clock
      by (auto simp: logOrdered_def list_all_iff sorted_append)
  qed
qed

lemma runLoop_invariants:
  "queueOrdered s \<Longrightarrow> logOrdered s \<Longrightarrow>
   queueOrdered (finalState (runLoop procs n s)) \<and> logOrdered (finalState (runLoop procs n s))"
proof (induction n arbitrary: s)
  case 0
  then show ?case by simp
next
  case (Suc n)
  show ?case
  proof (cases "step procs s")
    case None
    then show ?thesis using Suc.prems by simp
  next
    case (Some r)
    have q: "queueOrdered (stateOf r)" using step_queueOrdered [OF Suc.prems(1) Some] .
    have l: "logOrdered (stateOf r)" using step_logOrdered [OF Suc.prems(2) Some] .
    show ?thesis
    proof (cases r)
      case (Ok s')
      then show ?thesis using Some q l Suc.IH [of s'] by simp
    next
      case (Threw err s')
      then show ?thesis using Some q l by simp
    qed
  qed
qed

lemma runLoop_clock:
  "currentTime (theSim s) \<le> currentTime (theSim (finalState (runLoop procs n s)))"
proof (induction n arbitrary: s)
  case 0
  then show ?case by simp
next
  case (Suc n)
  show ?case
  proof (cases "step procs s")
    case None
    then show ?thesis by simp
  next
    case (Some r)
    have c: "currentTime (theSim s) \<le> currentTime (theSim (stateOf r))"
      using step_clock [OF Some] .
    show ?thesis
    proof (cases r)
      case (Ok s')
      then show ?thesis using Some c Suc.IH [of s'] by simp
    next
      case (Threw err s')
      then show ?thesis using Some c by simp
    qed
  qed
qed

lemma runLoop_clock_step:
  "currentTime (theSim (finalState (runLoop procs n s)))
     \<le> currentTime (theSim (finalState (runLoop procs (Suc n) s)))"
proof (induction n arbitrary: s)
  case 0
  show ?case using runLoop_clock [of s procs "Suc 0"] by simp
next
  case (Suc n)
  show ?case
  proof (cases "step procs s")
    case None
    then show ?thesis by simp
  next
    case (Some r)
    show ?thesis
    proof (cases r)
      case (Ok s')
      then show ?thesis using Some Suc.IH [of s'] by simp
    next
      case (Threw err s')
      then show ?thesis using Some by simp
    qed
  qed
qed

lemma last_of_ordered:
  "sorted_wrt R ys \<Longrightarrow> y \<in> set ys \<Longrightarrow> y = last ys \<or> R y (last ys)"
proof (induction ys rule: rev_induct)
  case Nil
  then show ?case by simp
next
  case (snoc x xs)
  then show ?case by (auto simp: sorted_wrt_append)
qed

lemma popped_is_latest:
  assumes "sorted_wrt queuedBefore (events sim)" "pop (eventsTodo sim) = Some ev"
      and "e' \<in> set (eventsTodo sim)"
  shows "scheduledAt ev \<le> scheduledAt e' \<and> (scheduledAt e' = scheduledAt ev \<longrightarrow> eid e' \<le> eid ev)"
proof -
  have "sorted_wrt queuedBefore (eventsTodo sim)"
    using assms(1) by (simp add: eventsTodo_def sorted_wrt_filter)
  from last_of_ordered [OF this assms(3)] have "e' = ev \<or> queuedBefore e' ev"
    using assms(2) by (simp add: pop_Some)
  then show ?thesis by (auto simp: queuedBefore_def)
qed

lemma finalize_clock: "currentTime (theSim (finalize t s)) = currentTime (theSim s)"
  by (simp add: finalize_def Let_def)

lemma runSimulation_clock:
  "currentTime (theSim s) \<le> currentTime (theSim (finalState (runSimulation procs n s)))"
  using runLoop_clock [of "s\<lparr>eventPromises := []\<rparr>" procs n]
  by (cases "runLoop procs n (s\<lparr>eventPromises := []\<rparr>)")
     (auto simp: runSimulation_def finalize_clock)



section \<open>Scheduler: the clock\<close>

text \<open>
  C8. \<open>currentTime\<close> never decreases: it is 0 after \<open>initializeSimulation\<close>,
  \<open>scheduleEvent\<close> and the assignment of its result leave it alone, every iteration of
  the loop of \<open>runSimulation\<close> moves it to a due time that is not before it (so the
  state after \<open>n + 1\<close> iterations is not before the state after \<open>n\<close>), and it is not
  before its initial value when the run is over. No event is admitted with a due time
  before \<open>currentTime\<close>: \<open>scheduleEvent\<close> succeeds only when
  \<open>currentTime \<le> scheduledAt\<close>.
\<close>

theorem clock_monotone:
  "currentTime initializeSimulation = 0 \<and>
   currentTime (snd (admit sim ev)) = currentTime sim \<and>
   (scheduleEvent sim ev = Inr evs \<longrightarrow> currentTime sim \<le> scheduledAt ev) \<and>
   (step procs s = Some r \<longrightarrow> currentTime (theSim s) \<le> currentTime (theSim (stateOf r))) \<and>
   currentTime (theSim (finalState (runLoop procs n s)))
     \<le> currentTime (theSim (finalState (runLoop procs (Suc n) s))) \<and>
   currentTime (theSim s) \<le> currentTime (theSim (finalState (runSimulation procs n s)))"
proof -
  have "currentTime (snd (admit sim ev)) = currentTime sim"
    by (cases "scheduleEvent sim ev") (simp_all add: admit_def)
  moreover have "scheduleEvent sim ev = Inr evs \<longrightarrow> currentTime sim \<le> scheduledAt ev"
    by (simp add: scheduleEvent_def split: if_splits)
  ultimately show ?thesis
    using step_clock [of procs s r] runLoop_clock_step [of procs n s]
      runSimulation_clock [of s procs n]
    by (simp add: initializeSimulation_def)
qed

theorem clock_monotone_witness:
  "scheduleEvent \<lparr>currentTime = 5, events = []\<rparr>
     \<lparr>eid = 1, status = Fired, firedAt = 5, scheduledAt = 8,
      finishedAt = None, item = JUndefined, callback = 0\<rparr>
   = Inr [\<lparr>eid = 1, status = Scheduled, firedAt = 5, scheduledAt = 8,
           finishedAt = None, item = JUndefined, callback = 0\<rparr>] \<and>
   currentTime \<lparr>currentTime = 5, events = []\<rparr> \<le> (8::int) \<and>
   step (\<lambda>_. idle) (stateOf (admitAll initialState [(7, 0, JUndefined)]))
     = Some (Ok \<lparr>theSim = \<lparr>currentTime = 7, events = [
        \<lparr>eid = 1, status = Pending, firedAt = 0, scheduledAt = 7, finishedAt = None, item = JUndefined, callback = 0\<rparr>]\<rparr>,
        lastId = 1, theStore = \<lparr>items = [], queue = []\<rparr>,
        eventPromises = [(0, \<lparr>eid = 1, status = Pending, firedAt = 0, scheduledAt = 7, finishedAt = None, item = JUndefined, callback = 0\<rparr>, Some (0, JUndefined))]\<rparr>) \<and>
   currentTime (theSim (stateOf (admitAll initialState [(7, 0, JUndefined)]))) \<le> 7"
proof -
  have h1: "scheduleEvent \<lparr>currentTime = 5, events = []\<rparr>
     \<lparr>eid = 1, status = Fired, firedAt = 5, scheduledAt = 8,
      finishedAt = None, item = JUndefined, callback = 0\<rparr>
   = Inr [\<lparr>eid = 1, status = Scheduled, firedAt = 5, scheduledAt = 8,
           finishedAt = None, item = JUndefined, callback = 0\<rparr>]"
    by code_simp
  have h2: "step (\<lambda>_. idle) (stateOf (admitAll initialState [(7, 0, JUndefined)]))
     = Some (Ok \<lparr>theSim = \<lparr>currentTime = 7, events = [
        \<lparr>eid = 1, status = Pending, firedAt = 0, scheduledAt = 7, finishedAt = None, item = JUndefined, callback = 0\<rparr>]\<rparr>,
        lastId = 1, theStore = \<lparr>items = [], queue = []\<rparr>,
        eventPromises = [(0, \<lparr>eid = 1, status = Pending, firedAt = 0, scheduledAt = 7, finishedAt = None, item = JUndefined, callback = 0\<rparr>, Some (0, JUndefined))]\<rparr>)"
    by code_simp
  show ?thesis
    using h1 h2 clock_monotone [of "\<lparr>currentTime = 5, events = []\<rparr>"
      "\<lparr>eid = 1, status = Fired, firedAt = 5, scheduledAt = 8,
        finishedAt = None, item = JUndefined, callback = 0\<rparr>"
      "[\<lparr>eid = 1, status = Scheduled, firedAt = 5, scheduledAt = 8,
           finishedAt = None, item = JUndefined, callback = 0\<rparr>]"
      "\<lambda>_. idle" "stateOf (admitAll initialState [(7, 0, JUndefined)])" _ 0]
    by simp
qed


section \<open>The generator-based store: blocking and non-blocking deposits\<close>

lemma resumedAt_append: "resumedAt p (rs @ rs') = resumedAt p rs @ resumedAt p rs'"
  by (induction p rs rule: resumedAt.induct) auto

text \<open>The operations of other processes never resume a producer that is not parked.\<close>

lemma put_notParked:
  "notParked p (putRequests st) \<Longrightarrow> q \<noteq> p \<Longrightarrow>
   notParked p (putRequests (snd (resources_put now q it b st))) \<and>
   resumedAt p (fst (resources_put now q it b st)) = []"
  by (auto simp: resources_put_def notParked_def split: list.splits)

lemma get_notParked:
  "notParked p (putRequests st) \<Longrightarrow>
   notParked p (putRequests (snd (resources_get now c st))) \<and>
   resumedAt p (fst (resources_get now c st)) = []"
  by (auto simp: resources_get_def notParked_def split: list.splits)

lemma others_never_resume:
  "notParked p (putRequests st) \<Longrightarrow> list_all (\<lambda>op. actor op \<noteq> p) ops \<Longrightarrow>
   resumedAt p (fst (resources_run ops st)) = []"
proof (induction ops arbitrary: st)
  case Nil
  then show ?case by simp
next
  case (Cons op ops)
  show ?case
  proof (cases op)
    case (DoPut now q it b)
    then have q: "q \<noteq> p" using Cons.prems(2) by simp
    obtain rs st' where r: "resources_put now q it b st = (rs, st')"
      by (cases "resources_put now q it b st") auto
    have "notParked p (putRequests st')" "resumedAt p rs = []"
      using put_notParked [OF Cons.prems(1) q, of now it b] r by simp_all
    then show ?thesis using Cons.IH [of st'] Cons.prems(2) DoPut r
      by (auto simp: resumedAt_append split: prod.splits)
  next
    case (DoGet now c)
    obtain rs st' where r: "resources_get now c st = (rs, st')"
      by (cases "resources_get now c st") auto
    have "notParked p (putRequests st')" "resumedAt p rs = []"
      using get_notParked [OF Cons.prems(1), of now c] r by simp_all
    then show ?thesis using Cons.IH [of st'] Cons.prems(2) DoGet r
      by (auto simp: resumedAt_append split: prod.splits)
  qed
qed

text \<open>
  While a deposit \<open>d\<close> waits behind the deposits \<open>qs\<close> and no consumer waits, the
  operations of other processes, with no more requests than \<open>qs\<close> has deposits, leave
  \<open>d\<close> in the store behind what is left of \<open>qs\<close>, and resume no producer that is not
  parked on \<open>qs\<close>.
\<close>

lemma run_before_match:
  "getRequests st = [] \<Longrightarrow> putRequests st = qs @ d # rest \<Longrightarrow> notParked p qs \<Longrightarrow>
   list_all (\<lambda>op. actor op \<noteq> p) ops \<Longrightarrow> length (filter isGet ops) \<le> length qs \<Longrightarrow>
   resumedAt p (fst (resources_run ops st)) = [] \<and>
   getRequests (snd (resources_run ops st)) = [] \<and>
   (\<exists>rest'. putRequests (snd (resources_run ops st))
            = drop (length (filter isGet ops)) qs @ d # rest')"
proof (induction ops arbitrary: st qs rest)
  case Nil
  then show ?case by simp
next
  case (Cons op ops)
  show ?case
  proof (cases op)
    case (DoPut now q it b)
    let ?e = "\<lparr>depositItem = it, depositOwner = q, depositBlocking = b\<rparr>"
    let ?st = "st\<lparr>putRequests := putRequests st @ [?e]\<rparr>"
    have q: "q \<noteq> p" using Cons.prems(4) DoPut by simp
    have r: "resources_put now q it b st = (if b then [] else [ProducerResumed q now], ?st)"
      using Cons.prems(1) by (simp add: resources_put_def)
    have "getRequests ?st = []" "putRequests ?st = qs @ d # (rest @ [?e])"
      using Cons.prems(1,2) by simp_all
    from Cons.IH [OF this Cons.prems(3)] show ?thesis
      using Cons.prems(4,5) DoPut r q by (auto simp: resumedAt_append split: prod.splits)
  next
    case (DoGet now c)
    then have "qs \<noteq> []" using Cons.prems(5) by auto
    then obtain q0 qs' where qs: "qs = q0 # qs'" by (cases qs) auto
    let ?st = "st\<lparr>putRequests := qs' @ d # rest\<rparr>"
    have r: "resources_get now c st =
       (ConsumerResumed c now (depositItem q0)
          # (if depositBlocking q0 then [ProducerResumed (depositOwner q0) now] else []), ?st)"
      using Cons.prems(2) qs by (simp add: resources_get_def)
    have np: "\<not> (depositOwner q0 = p \<and> depositBlocking q0)" "notParked p qs'"
      using Cons.prems(3) qs by (simp_all add: notParked_def)
    have "getRequests ?st = []" "putRequests ?st = qs' @ d # rest"
      using Cons.prems(1) by simp_all
    from Cons.IH [OF this np(2)] show ?thesis
      using Cons.prems(4,5) DoGet r qs np(1) by (auto simp: resumedAt_append split: prod.splits)
  qed
qed


text \<open>
  C2. A non-blocking deposit of a producer \<open>p\<close> at time \<open>T1\<close> resumes \<open>p\<close> at
  \<open>T1\<close>, in every store; a deposit that finds a waiting consumer is matched at once
  and resumes \<open>p\<close> at \<open>T1\<close> also when it is blocking. After a non-blocking
  deposit, whatever other processes deposit and request later, at any times and in any
  number, never resumes \<open>p\<close> again (\<open>p\<close> runs when it deposits, so it is parked on
  no deposit of the store).

  A blocking deposit of \<open>p\<close> at \<open>T1\<close> that finds no waiting consumer does not
  resume \<open>p\<close>. Neither do the deposits and the requests that other processes make
  while the deposit waits, that is, as long as they make no more requests than there
  were older deposits. When they have made as many, the next request, at time \<open>T2\<close>,
  is the one matched with the deposit: it receives the item and resumes \<open>p\<close> at
  \<open>T2\<close>. That is the only time at which \<open>p\<close> resumes from the deposit on, and a
  producer that returns then records \<open>T2\<close> as its completion time.
\<close>

theorem blocking_put_resumes_at_match:
  "resumedAt p (fst (resources_put T1 p it False st')) = [T1] \<and>
   (getRequests st' \<noteq> [] \<longrightarrow> resumedAt p (fst (resources_put T1 p it True st')) = [T1]) \<and>
   (notParked p (putRequests st') \<and> list_all (\<lambda>op. actor op \<noteq> p) ops' \<longrightarrow>
      resumedAt p (fst (resources_run ops' (snd (resources_put T1 p it False st')))) = []) \<and>
   (getRequests st = [] \<and> notParked p (putRequests st) \<and>
    list_all (\<lambda>op. actor op \<noteq> p) ops \<and>
    length (filter isGet ops) \<le> length (putRequests st) \<longrightarrow>
      resumedAt p (fst (resources_put T1 p it True st)) = [] \<and>
      resumedAt p (fst (resources_run ops (snd (resources_put T1 p it True st)))) = [] \<and>
      (length (filter isGet ops) = length (putRequests st) \<longrightarrow>
         fst (resources_get T2 c
                (snd (resources_run ops (snd (resources_put T1 p it True st)))))
           = [ConsumerResumed c T2 it, ProducerResumed p T2] \<and>
         resumedAt p
            (fst (resources_put T1 p it True st)
             @ fst (resources_run ops (snd (resources_put T1 p it True st)))
             @ fst (resources_get T2 c
                      (snd (resources_run ops (snd (resources_put T1 p it True st))))))
           = [T2] \<and>
         map (\<lambda>t. finishedAt (completeEvent t ev res))
           (resumedAt p
              (fst (resources_get T2 c
                      (snd (resources_run ops (snd (resources_put T1 p it True st)))))))
           = [Some T2]))"
proof -
  have a: "resumedAt p (fst (resources_put T1 p it False st')) = [T1]"
    by (simp add: resources_put_def split: list.splits)
  have b: "getRequests st' \<noteq> [] \<longrightarrow> resumedAt p (fst (resources_put T1 p it True st')) = [T1]"
    by (simp add: resources_put_def split: list.splits)
  have c: "resumedAt p (fst (resources_run ops' (snd (resources_put T1 p it False st')))) = []"
    if h: "notParked p (putRequests st')" "list_all (\<lambda>op. actor op \<noteq> p) ops'"
  proof -
    have "notParked p (putRequests (snd (resources_put T1 p it False st')))"
      using h(1) by (auto simp: resources_put_def notParked_def split: list.splits)
    from others_never_resume [OF this h(2)] show ?thesis .
  qed
  have d: "resumedAt p (fst (resources_put T1 p it True st)) = [] \<and>
      resumedAt p (fst (resources_run ops (snd (resources_put T1 p it True st)))) = [] \<and>
      (length (filter isGet ops) = length (putRequests st) \<longrightarrow>
         fst (resources_get T2 c
                (snd (resources_run ops (snd (resources_put T1 p it True st)))))
           = [ConsumerResumed c T2 it, ProducerResumed p T2])"
    if h: "getRequests st = []" "notParked p (putRequests st)"
      "list_all (\<lambda>op. actor op \<noteq> p) ops"
      "length (filter isGet ops) \<le> length (putRequests st)"
  proof -
    let ?d = "\<lparr>depositItem = it, depositOwner = p, depositBlocking = True\<rparr>"
    let ?st1 = "st\<lparr>putRequests := putRequests st @ [?d]\<rparr>"
    have put1: "resources_put T1 p it True st = ([], ?st1)"
      using h(1) by (simp add: resources_put_def)
    have "getRequests ?st1 = []" "putRequests ?st1 = putRequests st @ ?d # []"
      using h(1) by simp_all
    from run_before_match [OF this h(2,3,4)]
    obtain rest' where quiet: "resumedAt p (fst (resources_run ops ?st1)) = []"
      and after: "putRequests (snd (resources_run ops ?st1))
          = drop (length (filter isGet ops)) (putRequests st) @ ?d # rest'"
      by blast
    have "fst (resources_get T2 c (snd (resources_run ops ?st1)))
           = [ConsumerResumed c T2 it, ProducerResumed p T2]"
      if "length (filter isGet ops) = length (putRequests st)"
      using after that by (simp add: resources_get_def)
    then show ?thesis using put1 quiet by simp
  qed
  show ?thesis using a b c d by (auto simp: completeEvent_def resumedAt_append)
qed


text \<open>
  The times of the test ``blocking/non-blocking put operations'', 30 and 40, in a
  store that holds an older deposit, with another process depositing at 35 and the
  older deposit requested at 36; and a non-blocking deposit at 30 that finds a waiting
  consumer.
\<close>

theorem blocking_put_resumes_at_match_witness:
  "getRequests \<lparr>putRequests = [], getRequests = [5]\<rparr> \<noteq> [] \<and>
   notParked 1 (putRequests \<lparr>putRequests = [], getRequests = [5]\<rparr>) \<and>
   list_all (\<lambda>op. actor op \<noteq> 1) [DoGet 60 4, DoPut 61 8 (JStr ''x'') True] \<and>
   getRequests \<lparr>putRequests = [\<lparr>depositItem = JStr ''old'', depositOwner = 7, depositBlocking = False\<rparr>], getRequests = []\<rparr> = [] \<and>
   notParked 1 (putRequests \<lparr>putRequests = [\<lparr>depositItem = JStr ''old'', depositOwner = 7, depositBlocking = False\<rparr>], getRequests = []\<rparr>) \<and>
   list_all (\<lambda>op. actor op \<noteq> 1) [DoPut 35 8 (JStr ''x'') True, DoGet 36 9] \<and>
   length (filter isGet [DoPut 35 8 (JStr ''x'') True, DoGet 36 9]) = length (putRequests \<lparr>putRequests = [\<lparr>depositItem = JStr ''old'', depositOwner = 7, depositBlocking = False\<rparr>], getRequests = []\<rparr>) \<and>
   resumedAt 1 (fst (resources_put 30 1 (JStr ''foobar'') False \<lparr>putRequests = [], getRequests = [5]\<rparr>)) = [30] \<and>
   resumedAt 1 (fst (resources_put 30 1 (JStr ''foobar'') True \<lparr>putRequests = [], getRequests = [5]\<rparr>)) = [30] \<and>
   resumedAt 1 (fst (resources_run [DoGet 60 4, DoPut 61 8 (JStr ''x'') True]
      (snd (resources_put 30 1 (JStr ''foobar'') False \<lparr>putRequests = [], getRequests = [5]\<rparr>)))) = [] \<and>
   resumedAt 1 (fst (resources_put 30 1 (JStr ''foobar'') True \<lparr>putRequests = [\<lparr>depositItem = JStr ''old'', depositOwner = 7, depositBlocking = False\<rparr>], getRequests = []\<rparr>)) = [] \<and>
   resumedAt 1 (fst (resources_run [DoPut 35 8 (JStr ''x'') True, DoGet 36 9]
      (snd (resources_put 30 1 (JStr ''foobar'') True \<lparr>putRequests = [\<lparr>depositItem = JStr ''old'', depositOwner = 7, depositBlocking = False\<rparr>], getRequests = []\<rparr>)))) = [] \<and>
   fst (resources_get 40 2 (snd (resources_run [DoPut 35 8 (JStr ''x'') True, DoGet 36 9]
      (snd (resources_put 30 1 (JStr ''foobar'') True \<lparr>putRequests = [\<lparr>depositItem = JStr ''old'', depositOwner = 7, depositBlocking = False\<rparr>], getRequests = []\<rparr>)))))
     = [ConsumerResumed 2 40 (JStr ''foobar''), ProducerResumed 1 40]"
proof -
  have h1: "getRequests \<lparr>putRequests = [], getRequests = [5]\<rparr> \<noteq> []" by simp
  have h2: "notParked 1 (putRequests \<lparr>putRequests = [], getRequests = [5]\<rparr>)" by (simp add: notParked_def)
  have h3: "list_all (\<lambda>op. actor op \<noteq> 1) [DoGet 60 4, DoPut 61 8 (JStr ''x'') True]" by simp
  have h4: "getRequests \<lparr>putRequests = [\<lparr>depositItem = JStr ''old'', depositOwner = 7, depositBlocking = False\<rparr>], getRequests = []\<rparr> = []" by simp
  have h5: "notParked 1 (putRequests \<lparr>putRequests = [\<lparr>depositItem = JStr ''old'', depositOwner = 7, depositBlocking = False\<rparr>], getRequests = []\<rparr>)" by (simp add: notParked_def)
  have h6: "list_all (\<lambda>op. actor op \<noteq> 1) [DoPut 35 8 (JStr ''x'') True, DoGet 36 9]" by simp
  have h7: "length (filter isGet [DoPut 35 8 (JStr ''x'') True, DoGet 36 9]) = length (putRequests \<lparr>putRequests = [\<lparr>depositItem = JStr ''old'', depositOwner = 7, depositBlocking = False\<rparr>], getRequests = []\<rparr>)" by simp
  show ?thesis
    using h1 h2 h3 h4 h5 h6 h7
      blocking_put_resumes_at_match [of 1 30 "JStr ''foobar''" "\<lparr>putRequests = [], getRequests = [5]\<rparr>" "[DoGet 60 4, DoPut 61 8 (JStr ''x'') True]" "\<lparr>putRequests = [\<lparr>depositItem = JStr ''old'', depositOwner = 7, depositBlocking = False\<rparr>], getRequests = []\<rparr>" "[DoPut 35 8 (JStr ''x'') True, DoGet 36 9]" 40 2]
    by simp
qed

section \<open>The queue when the run is over\<close>

lemma insert_cmp_distinct:
  "distinct (map eid (insert_cmp cmp x xs)) \<longleftrightarrow> distinct (map eid (x # xs))"
  by (induction xs) (auto simp: insert_cmp_set)

lemma resort_distinct:
  "distinct (map eid (foldr (insert_cmp cmp) xs [x])) \<longleftrightarrow> distinct (map eid (x # xs))"
proof (induction xs)
  case Nil
  then show ?case by simp
next
  case (Cons y ys)
  have "set (foldr (insert_cmp cmp) ys [x]) = insert x (set ys)"
    by (induction ys) (auto simp: insert_cmp_set)
  then show ?case using Cons by (auto simp: insert_cmp_distinct)
qed

lemma resort_set: "set (foldr (insert_cmp cmp) xs [x]) = insert x (set xs)"
  by (induction xs) (auto simp: insert_cmp_set)

lemma admitNew_events:
  "events (theSim (stateOf (admitNew s a))) = events (theSim s) \<or>
   (\<exists>ev. eid ev = Suc (lastId s) \<and> status ev = Scheduled \<and>
      events (theSim (stateOf (admitNew s a)))
        = foldr (insert_cmp by_time_desc) (events (theSim s)) [ev])"
proof -
  obtain at cb it where a: "a = (at, cb, it)" by (cases a) auto
  let ?ev = "\<lparr>eid = Suc (lastId s), status = Scheduled, firedAt = currentTime (theSim s),
              scheduledAt = at, finishedAt = None, item = it, callback = cb\<rparr>"
  show ?thesis
  proof (cases "at < currentTime (theSim s)")
    case True
    then show ?thesis using a
      by (simp add: admitNew_def createEvent_def generateId_def admit_def scheduleEvent_def)
  next
    case False
    then have "events (theSim (stateOf (admitNew s a)))
        = foldr (insert_cmp by_time_desc) (events (theSim s)) [?ev]"
      using a
      by (simp add: admitNew_def createEvent_def generateId_def admit_def scheduleEvent_def
            sort_cmp_def)
    moreover have "eid ?ev = Suc (lastId s) \<and> status ?ev = Scheduled" by simp
    ultimately show ?thesis by blast
  qed
qed

lemma admitNew_lastId: "lastId (stateOf (admitNew s a)) = Suc (lastId s)"
proof -
  obtain at cb it where a: "a = (at, cb, it)" by (cases a) auto
  show ?thesis using a
    by (auto simp: admitNew_def createEvent_def generateId_def admit_def split: sum.splits)
qed

lemma admitNew_distinctIds:
  assumes "distinctIds s" "queueOrdered s"
  shows "distinctIds (stateOf (admitNew s a))"
proof -
  have ids: "\<forall>y\<in>set (events (theSim s)). eid y \<le> lastId s"
    using assms(2) by (simp add: queueOrdered_def list_all_iff)
  from admitNew_events [of s a] show ?thesis
  proof
    assume "events (theSim (stateOf (admitNew s a))) = events (theSim s)"
    then show ?thesis using assms(1) by (simp add: distinctIds_def)
  next
    assume "\<exists>ev. eid ev = Suc (lastId s) \<and> status ev = Scheduled \<and>
      events (theSim (stateOf (admitNew s a)))
        = foldr (insert_cmp by_time_desc) (events (theSim s)) [ev]"
    then obtain ev where ev: "eid ev = Suc (lastId s)"
      "events (theSim (stateOf (admitNew s a)))
        = foldr (insert_cmp by_time_desc) (events (theSim s)) [ev]" by blast
    have "eid ev \<notin> eid ` set (events (theSim s))" using ids ev(1) by auto
    then show ?thesis using assms(1) ev(2) by (simp add: distinctIds_def resort_distinct)
  qed
qed

lemma admitNew_grows:
  "set (events (theSim s)) \<subseteq> set (events (theSim (stateOf (admitNew s a))))"
  using admitNew_events [of s a] by (auto simp: resort_set)

lemma admitAll_distinctIds:
  "distinctIds s \<Longrightarrow> queueOrdered s \<Longrightarrow> distinctIds (stateOf (admitAll s as))"
proof (induction as arbitrary: s)
  case Nil
  then show ?case by simp
next
  case (Cons a as)
  have d: "distinctIds (stateOf (admitNew s a))"
    using admitNew_distinctIds [OF Cons.prems] .
  have q: "queueOrdered (stateOf (admitNew s a))"
    using admitNew_queueOrdered [OF Cons.prems(2)] .
  show ?case
  proof (cases "admitNew s a")
    case (Ok s')
    then show ?thesis using d q Cons.IH [of s'] by simp
  next
    case (Threw err s')
    then show ?thesis using d by simp
  qed
qed

lemma admitAll_grows:
  "set (events (theSim s)) \<subseteq> set (events (theSim (stateOf (admitAll s as))))"
proof (induction as arbitrary: s)
  case Nil
  then show ?case by simp
next
  case (Cons a as)
  show ?case
  proof (cases "admitNew s a")
    case (Ok s')
    then show ?thesis using admitNew_grows [of s a] Cons.IH [of s'] by auto
  next
    case (Threw err s')
    then show ?thesis using admitNew_grows [of s a] by auto
  qed
qed

lemma update_last_pop:
  "pop (filter P xs) = Some x \<Longrightarrow>
   \<exists>ys zs. xs = ys @ x # zs \<and> \<not> list_ex P zs \<and> P x \<and> update_last P f xs = ys @ f x # zs"
proof (induction xs)
  case Nil
  then show ?case by (simp add: pop_def)
next
  case (Cons a xs)
  show ?case
  proof (cases "list_ex P xs")
    case True
    then have "filter P xs \<noteq> []" by (auto simp: list_ex_iff filter_empty_conv)
    then have "pop (filter P xs) = Some x" using Cons.prems by (auto simp: pop_Some)
    from Cons.IH [OF this] obtain ys zs where
      "xs = ys @ x # zs" "\<not> list_ex P zs" "P x" "update_last P f xs = ys @ f x # zs" by blast
    then have "a # xs = (a # ys) @ x # zs \<and> \<not> list_ex P zs \<and> P x \<and>
               update_last P f (a # xs) = (a # ys) @ f x # zs"
      using True by simp
    then show ?thesis by blast
  next
    case False
    then have e: "filter P xs = []" by (auto simp: list_ex_iff filter_empty_conv)
    then have "P a \<and> x = a" using Cons.prems by (auto simp: pop_Some split: if_splits)
    then have "a # xs = [] @ x # xs \<and> \<not> list_ex P xs \<and> P x \<and>
               update_last P f (a # xs) = [] @ f x # xs"
      using False by simp
    then show ?thesis by blast
  qed
qed


lemma dispatch_keeps:
  "map eid (events (theSim (dispatch s ev))) = map eid (events (theSim s)) \<and>
   eventPromises (dispatch s ev) = eventPromises s \<and>
   dispatched (dispatch s ev) = dispatched s \<and> lastId (dispatch s ev) = lastId s"
  by (simp add: dispatch_def dispatched_def update_last_map [where key = eid])

lemma dispatch_distinctIds: "distinctIds s \<Longrightarrow> distinctIds (dispatch s ev)"
  by (simp add: distinctIds_def dispatch_keeps)

lemma dispatch_logInQueue:
  assumes "logInQueue s" "distinctIds s" "pop (eventsTodo (theSim s)) = Some ev"
  shows "logInQueue (dispatch s ev) \<and>
         ev\<lparr>status := Pending\<rparr> \<in> set (events (theSim (dispatch s ev))) \<and>
         eid ev \<notin> eid ` set (dispatched s)"
proof -
  let ?f = "\<lambda>e. e\<lparr>status := Pending\<rparr>"
  from update_last_pop [of "eligible (theSim s)" "events (theSim s)" ev ?f] assms(3)
  obtain ys zs where dec: "events (theSim s) = ys @ ev # zs"
    and el: "eligible (theSim s) ev"
    and upd: "update_last (eligible (theSim s)) ?f (events (theSim s)) = ys @ ?f ev # zs"
    by (auto simp: eventsTodo_def)
  have sch: "status ev = Scheduled" using el by (simp add: eligible_def)
  have inq: "\<forall>d\<in>set (dispatched s). d \<in> set (events (theSim s)) \<and> status d = Pending"
    using assms(1) by (simp add: logInQueue_def list_all_iff)
  have inj: "inj_on eid (set (events (theSim s)))"
    using assms(2) by (simp add: distinctIds_def distinct_map)
  have evq: "ev \<in> set (events (theSim s))" using dec by simp
  have fresh: "eid ev \<notin> eid ` set (dispatched s)"
  proof
    assume "eid ev \<in> eid ` set (dispatched s)"
    then obtain d where d: "d \<in> set (dispatched s)" "eid d = eid ev" by auto
    then have "d \<in> set (events (theSim s))" "status d = Pending" using inq by auto
    then have "d = ev" using inj evq d(2) by (auto dest: inj_onD)
    then show False using sch \<open>status d = Pending\<close> by simp
  qed
  have "\<forall>d\<in>set (dispatched s). d \<in> set (ys @ ?f ev # zs)"
  proof
    fix d assume d: "d \<in> set (dispatched s)"
    then have "d \<in> set (ys @ ev # zs)" "status d = Pending" using inq dec by auto
    then have "d \<noteq> ev" using sch by auto
    then show "d \<in> set (ys @ ?f ev # zs)" using \<open>d \<in> set (ys @ ev # zs)\<close> by auto
  qed
  then have "logInQueue (dispatch s ev)"
    using assms(1) inq upd
    by (simp add: logInQueue_def list_all_iff dispatch_keeps) (simp add: dispatch_def)
  moreover have "?f ev \<in> set (events (theSim (dispatch s ev)))"
    using upd by (simp add: dispatch_def)
  ultimately show ?thesis using fresh by simp
qed

lemma invoke_logInQueue:
  assumes "logInQueue s" "ev \<in> set (events (theSim s))" "status ev = Pending"
      and "eid ev \<notin> eid ` set (dispatched s)"
  shows "logInQueue (stateOf (invoke procs ev s))"
proof -
  obtain adms r where p: "procs (callback ev) (theSim s) ev = (adms, r)"
    by (cases "procs (callback ev) (theSim s) ev") auto
  let ?s1 = "stateOf (admitAll s adms)"
  have d1: "dispatched ?s1 = dispatched s"
    using admitAll_keeps [of s adms] by (simp add: dispatched_def)
  have g: "set (events (theSim s)) \<subseteq> set (events (theSim ?s1))" using admitAll_grows .
  have l1: "logInQueue ?s1" using assms(1) d1 g by (auto simp: logInQueue_def list_all_iff)
  show ?thesis
  proof (cases "admitAll s adms")
    case (Threw err s')
    then show ?thesis using p l1 by (simp add: invoke_def)
  next
    case (Ok s')
    then have "logInQueue (callReturn (length (eventPromises s')) ev r s')"
      using l1 d1 g assms(2,3,4)
      by (auto simp: logInQueue_def list_all_iff callReturn_keeps)
    then show ?thesis using p Ok by (simp add: invoke_def)
  qed
qed

lemma invoke_distinctIds:
  assumes "distinctIds s" "queueOrdered s"
  shows "distinctIds (stateOf (invoke procs ev s))"
proof -
  obtain adms r where p: "procs (callback ev) (theSim s) ev = (adms, r)"
    by (cases "procs (callback ev) (theSim s) ev") auto
  have "distinctIds (stateOf (admitAll s adms))" using admitAll_distinctIds [OF assms] .
  then show ?thesis using p
    by (cases "admitAll s adms") (auto simp: invoke_def distinctIds_def callReturn_keeps)
qed

lemma entryBounded_mono: "entryBounded n e \<Longrightarrow> n \<le> m \<Longrightarrow> entryBounded m e"
  by (cases "(n, e)" rule: entryBounded.cases) auto

lemma fulfil_bounded:
  "list_all (entryBounded m) ps \<Longrightarrow> now < m \<Longrightarrow> list_all (entryBounded m) (fulfil now c v ps)"
proof -
  assume a: "list_all (entryBounded m) ps" "now < m"
  show ?thesis
  proof (cases "c < length ps")
    case False
    then show ?thesis using a by (simp add: fulfil_def)
  next
    case True
    then have "entryBounded m (ps ! c)" using a(1) by (simp add: list_all_length)
    then have "entryBounded m (fst (ps ! c), fst (snd (ps ! c)), Some (now, v))"
      using a(2) by (cases "(m, ps ! c)" rule: entryBounded.cases) auto
    then show ?thesis using a(1) True
      by (auto simp: fulfil_def list_all_length nth_list_update)
  qed
qed

lemma fulfil_length: "length (fulfil now c v ps) = length ps"
  by (simp add: fulfil_def)

lemma callReturn_stampsBounded:
  assumes "stampsBounded s"
  shows "stampsBounded (callReturn (length (eventPromises s)) ev r s)"
proof -
  let ?n = "length (eventPromises s)"
  have up: "list_all (entryBounded (Suc ?n)) (eventPromises s)"
    using assms by (auto simp: stampsBounded_def list_all_iff intro: entryBounded_mono)
  show ?thesis
  proof (cases r)
    case (ReturnValue v)
    then show ?thesis using up by (simp add: callReturn_def stampsBounded_def)
  next
    case (ReturnPut it)
    then show ?thesis using up fulfil_bounded [OF up, of ?n]
      by (auto simp: callReturn_def stampsBounded_def fulfil_length
            split: prod.splits option.splits)
  next
    case ReturnGet
    then show ?thesis using up
      by (auto simp: callReturn_def stampsBounded_def split: prod.splits returned.splits)
  qed
qed

lemma invoke_stampsBounded:
  assumes "stampsBounded s"
  shows "stampsBounded (stateOf (invoke procs ev s))"
proof -
  obtain adms r where p: "procs (callback ev) (theSim s) ev = (adms, r)"
    by (cases "procs (callback ev) (theSim s) ev") auto
  have k: "eventPromises (stateOf (admitAll s adms)) = eventPromises s"
    using admitAll_keeps [of s adms] by simp
  show ?thesis
  proof (cases "admitAll s adms")
    case (Threw err s')
    then show ?thesis using p k assms by (simp add: invoke_def stampsBounded_def)
  next
    case (Ok s')
    then have "stampsBounded s'" using k assms by (simp add: stampsBounded_def)
    from callReturn_stampsBounded [OF this] show ?thesis using p Ok by (simp add: invoke_def)
  qed
qed


lemma step_runInvariant:
  assumes "runInvariant s" "step procs s = Some r"
  shows "runInvariant (stateOf r)"
proof -
  from assms(2) obtain ev where ev: "pop (eventsTodo (theSim s)) = Some ev"
    and r: "r = invoke procs (ev\<lparr>status := Pending\<rparr>) (dispatch s ev)"
    by (auto simp: step_def split: option.splits)
  let ?s1 = "dispatch s ev"
  let ?ev = "ev\<lparr>status := Pending\<rparr>"
  have q: "queueOrdered s" and d: "distinctIds s" and l: "logInQueue s" and b: "stampsBounded s"
    using assms(1) by (simp_all add: runInvariant_def)
  have q1: "queueOrdered ?s1" using dispatch_queueOrdered [OF q] .
  have d1: "distinctIds ?s1" using dispatch_distinctIds [OF d] .
  have l1: "logInQueue ?s1" "?ev \<in> set (events (theSim ?s1))"
    "eid ?ev \<notin> eid ` set (dispatched ?s1)"
    using dispatch_logInQueue [OF l d ev] by (simp_all add: dispatch_keeps)
  have b1: "stampsBounded ?s1" using b by (simp add: stampsBounded_def dispatch_keeps)
  have "queueOrdered (stateOf r)" using r invoke_queueOrdered [OF q1] by simp
  moreover have "distinctIds (stateOf r)" using r invoke_distinctIds [OF d1 q1] by simp
  moreover have "logInQueue (stateOf r)"
    using r invoke_logInQueue [OF l1(1,2) _ l1(3), of procs] by simp
  moreover have "stampsBounded (stateOf r)" using r invoke_stampsBounded [OF b1] by simp
  ultimately show ?thesis by (simp add: runInvariant_def)
qed

lemma runLoop_runInvariant:
  "runInvariant s \<Longrightarrow> runInvariant (finalState (runLoop procs n s))"
proof (induction n arbitrary: s)
  case 0
  then show ?case by simp
next
  case (Suc n)
  show ?case
  proof (cases "step procs s")
    case None
    then show ?thesis using Suc.prems by simp
  next
    case (Some r)
    have i: "runInvariant (stateOf r)" using step_runInvariant [OF Suc.prems Some] .
    show ?thesis
    proof (cases r)
      case (Ok s')
      then show ?thesis using Some i Suc.IH [of s'] by simp
    next
      case (Threw err s')
      then show ?thesis using Some i by simp
    qed
  qed
qed

lemma setup_runInvariant:
  assumes "admitAll initialState adms = Ok s0"
  shows "runInvariant s0 \<and> eventPromises s0 = []"
proof -
  have q0: "queueOrdered initialState"
    by (simp add: queueOrdered_def initialState_def initializeSimulation_def)
  have d0: "distinctIds initialState"
    by (simp add: distinctIds_def initialState_def initializeSimulation_def)
  have e: "eventPromises s0 = []"
    using admitAll_keeps [of initialState adms] assms by (simp add: initialState_def)
  have "queueOrdered s0" using admitAll_queueOrdered [OF q0, of adms] assms by simp
  moreover have "distinctIds s0" using admitAll_distinctIds [OF d0 q0, of adms] assms by simp
  ultimately show ?thesis using e
    by (simp add: runInvariant_def logInQueue_def stampsBounded_def dispatched_def)
qed

lemma handleEvent_settles:
  "entryBounded n e \<Longrightarrow>
   (case e of (now, ev, cb) \<Rightarrow> handleEvent now (\<lambda>_. sim) ev (Some (n, ())) cb)
     = Some (settledAt n e, settledEvent (currentTime sim) e)"
  by (cases "(n, e)" rule: entryBounded.cases)
     (auto simp: handleEvent_def then_p_def max_def)

lemma results_settle:
  "list_all (entryBounded n) es \<Longrightarrow>
   concat (map (\<lambda>p. case p of None \<Rightarrow> [] | Some kv \<Rightarrow> [kv])
     (map (\<lambda>(now, ev, cb). handleEvent now (\<lambda>_. sim) ev (Some (n, ())) cb) es))
   = map (\<lambda>e. (settledAt n e, settledEvent (currentTime sim) e)) es"
proof (induction es)
  case Nil
  then show ?case by simp
next
  case (Cons e es)
  then have "entryBounded n e" by simp
  from handleEvent_settles [OF this, of sim] show ?case using Cons by simp
qed

lemma settledEvent_eid: "eid (settledEvent t e) = eid (fst (snd e))"
  by (cases "(t, e)" rule: settledEvent.cases) auto

lemma insort_key_distinct_map:
  "distinct (map f (insort_key g x xs)) \<longleftrightarrow> f x \<notin> f ` set xs \<and> distinct (map f xs)"
  by (induction xs) (auto simp: set_insort_key)

lemma sort_key_distinct_map: "distinct (map f (sort_key g xs)) \<longleftrightarrow> distinct (map f xs)"
  by (induction xs) (simp_all add: insort_key_distinct_map)

lemma replaceById_ids: "map eid (replaceById ne evs) = map eid evs"
  by (induction evs) (auto simp: replaceById_def)

lemma replaceById_member: "eid ne \<in> eid ` set evs \<Longrightarrow> ne \<in> set (replaceById ne evs)"
  by (induction evs) (auto simp: replaceById_def)

lemma replaceById_other:
  "x \<in> set evs \<Longrightarrow> eid x \<noteq> eid ne \<Longrightarrow> x \<in> set (replaceById ne evs)"
  by (induction evs) (auto simp: replaceById_def)

lemma fold_replace_ids:
  "map eid (fold (\<lambda>(k, newEvent) evs. replaceById newEvent evs) rs evs) = map eid evs"
  by (induction rs arbitrary: evs) (auto simp: replaceById_ids)

lemma fold_replace_keeps:
  "\<forall>r\<in>set rs. eid (snd r) \<noteq> eid x \<Longrightarrow> x \<in> set evs \<Longrightarrow>
   x \<in> set (fold (\<lambda>(k, newEvent) evs. replaceById newEvent evs) rs evs)"
  by (induction rs arbitrary: evs) (auto simp: replaceById_other)

lemma fold_replace_member:
  "distinct (map (\<lambda>r. eid (snd r)) rs) \<Longrightarrow> (k, ne) \<in> set rs \<Longrightarrow> eid ne \<in> eid ` set evs \<Longrightarrow>
   ne \<in> set (fold (\<lambda>(k, newEvent) evs. replaceById newEvent evs) rs evs)"
proof (induction rs arbitrary: evs)
  case Nil
  then show ?case by simp
next
  case (Cons r rs)
  obtain k' ne' where r: "r = (k', ne')" by (cases r) auto
  show ?case
  proof (cases "(k, ne) = r")
    case True
    then have "ne' = ne" using r by simp
    have "ne \<in> set (replaceById ne evs)" using replaceById_member [OF Cons.prems(3)] .
    moreover have "\<forall>r'\<in>set rs. eid (snd r') \<noteq> eid ne"
      using Cons.prems(1) r \<open>ne' = ne\<close> by force
    ultimately show ?thesis using fold_replace_keeps r \<open>ne' = ne\<close> by simp
  next
    case False
    then have "(k, ne) \<in> set rs" using Cons.prems(2) by simp
    moreover have "distinct (map (\<lambda>r. eid (snd r)) rs)" using Cons.prems(1) by simp
    moreover have "eid ne \<in> eid ` set (replaceById ne' evs)"
    proof -
      have "eid ` set (replaceById ne' evs) = set (map eid (replaceById ne' evs))" by simp
      also have "\<dots> = eid ` set evs" by (simp only: replaceById_ids) simp
      finally show ?thesis using Cons.prems(3) by simp
    qed
    ultimately show ?thesis using Cons.IH [of "replaceById ne' evs"] r by simp
  qed
qed

lemma finalize_keeps:
  "currentTime (theSim (finalize t s)) = currentTime (theSim s) \<and>
   eventPromises (finalize t s) = eventPromises s \<and> theStore (finalize t s) = theStore s"
  by (simp add: finalize_def Let_def)

lemma finalized_entry:
  assumes "runInvariant s" "e \<in> set (eventPromises s)"
  shows "settledEvent (currentTime (theSim s)) e
           \<in> set (events (theSim (finalize (Some (length (eventPromises s), ())) s))) \<and>
         distinct (map eid (events (theSim (finalize (Some (length (eventPromises s), ())) s))))"
proof -
  let ?n = "length (eventPromises s)"
  let ?t = "currentTime (theSim s)"
  let ?rs = "settled (map (\<lambda>(now, ev, cb). handleEvent now (\<lambda>_. theSim s) ev (Some (?n, ())) cb)
                        (eventPromises s))"
  have b: "list_all (entryBounded ?n) (eventPromises s)"
    using assms(1) by (simp add: runInvariant_def stampsBounded_def)
  have rs: "?rs = sort_key fst (map (\<lambda>e. (settledAt ?n e, settledEvent ?t e)) (eventPromises s))"
    unfolding settled_def using results_settle [OF b, of "theSim s"] by simp
  have l: "list_all (\<lambda>ev. ev \<in> set (events (theSim s)) \<and> status ev = Pending) (dispatched s)"
    and dl: "distinct (map eid (dispatched s))"
    using assms(1) by (simp_all add: runInvariant_def logInQueue_def)
  have "map (\<lambda>r. eid (snd r)) (map (\<lambda>e. (settledAt ?n e, settledEvent ?t e)) (eventPromises s))
          = map eid (dispatched s)"
    by (auto simp: dispatched_def settledEvent_eid)
  then have d: "distinct (map (\<lambda>r. eid (snd r)) ?rs)"
    using dl by (simp add: rs sort_key_distinct_map)
  have m: "(settledAt ?n e, settledEvent ?t e) \<in> set ?rs" using assms(2) by (simp add: rs)
  have "dispatched s = map (\<lambda>e. fst (snd e)) (eventPromises s)"
    by (simp add: dispatched_def split_def)
  then have "fst (snd e) \<in> set (dispatched s)"
    using assms(2) by simp
  then have "fst (snd e) \<in> set (events (theSim s))" using l by (simp add: list_all_iff)
  then have i: "eid (settledEvent ?t e) \<in> eid ` set (events (theSim s))"
    by (simp add: settledEvent_eid)
  have ev: "events (theSim (finalize (Some (?n, ())) s))
      = fold (\<lambda>(k, newEvent) evs. replaceById newEvent evs) ?rs (events (theSim s))"
    by (simp add: finalize_def Let_def)
  have "settledEvent ?t e \<in> set (events (theSim (finalize (Some (?n, ())) s)))"
    unfolding ev using fold_replace_member [OF d m i] .
  moreover have "distinct (map eid (events (theSim (finalize (Some (?n, ())) s))))"
    unfolding ev using assms(1) by (simp add: fold_replace_ids runInvariant_def distinctIds_def)
  ultimately show ?thesis by simp
qed

lemma finished_run:
  assumes "admitAll initialState adms = Ok s0" "runSimulation procs n s0 = Finished s'"
  obtains sl where "runInvariant sl" "s' = finalize (Some (length (eventPromises sl), ())) sl"
proof -
  have i0: "runInvariant s0" and e0: "eventPromises s0 = []"
    using setup_runInvariant [OF assms(1)] by simp_all
  have s0: "s0\<lparr>eventPromises := []\<rparr> = s0" using e0 by simp
  have "runSimulation procs n s0 =
      (case runLoop procs n s0 of
         Finished s' \<Rightarrow> Finished (finalize (Some (length (eventPromises s'), ())) s')
       | Aborted err s' \<Rightarrow> Aborted err (finalize None s')
       | OutOfFuel s' \<Rightarrow> OutOfFuel s')"
    unfolding runSimulation_def s0 ..
  with assms(2) obtain sl where sl: "runLoop procs n s0 = Finished sl"
    and s': "s' = finalize (Some (length (eventPromises sl), ())) sl"
    by (cases "runLoop procs n s0") auto
  have "runInvariant sl" using runLoop_runInvariant [OF i0, of procs n] sl by simp
  then show ?thesis using that s' by blast
qed

text \<open>
  A process whose promise was fulfilled while the loop ran ends Completed. Its
  \<open>finishedAt\<close> is the final clock and not the clock at which the process finished:
  the reaction of \<open>handleEvent\<close> reads \<open>sim.currentTime\<close> when it runs, and every
  reaction runs after the loop. The documentation of \<open>finishedAt\<close> in model.ts reads
  \<open>When the event completed processing\<close>; the code does not do what it says there, and
  C7 (amended) leaves \<open>finishedAt\<close> out.
\<close>

lemma fulfilled_process_is_completed:
  assumes "admitAll initialState adms = Ok s0"
      and "runSimulation procs n s0 = Finished s'"
      and "(now, ev, Some (k, v)) \<in> set (eventPromises s')"
  shows "ev\<lparr>item := v, finishedAt := Some (currentTime (theSim s')), status := Completed\<rparr>
           \<in> set (events (theSim s'))"
proof -
  from finished_run [OF assms(1,2)] obtain sl where inv: "runInvariant sl"
    and s': "s' = finalize (Some (length (eventPromises sl), ())) sl" by blast
  have "eventPromises s' = eventPromises sl"
    unfolding s' by (simp add: finalize_keeps)
  then have e: "(now, ev, Some (k, v)) \<in> set (eventPromises sl)"
    using assms(3) by simp
  have c: "currentTime (theSim s') = currentTime (theSim sl)"
    unfolding s' by (simp add: finalize_keeps)
  have x: "settledEvent (currentTime (theSim sl)) (now, ev, Some (k, v))
      = ev\<lparr>item := v, finishedAt := Some (currentTime (theSim s')), status := Completed\<rparr>"
    unfolding c by simp
  show ?thesis using finalized_entry [OF inv e] unfolding x s' by simp
qed

text \<open>
  Two idle events, due at 10 and at 70: both end Completed, and the one that finished
  at 10 has 70 as its \<open>finishedAt\<close>.
\<close>

lemma finishedAt_is_final_clock:
  "map (\<lambda>e. (eid e, status e, scheduledAt e, finishedAt e))
     (events (theSim (finalState (runSimulation (\<lambda>_. idle) 3 (stateOf
        (admitAll initialState [(10, 0, JUndefined), (70, 0, JUndefined)]))))))
   = [(2, Completed, 70, Some 70), (1, Completed, 10, Some 70)]"
  by code_simp

text \<open>
  C6 (amended). Take a run, on a queue built by admissions from a fresh simulation,
  whose loop has stopped. For every dispatched process that is still parked then (the
  promise of its \<open>get\<close> was never fulfilled), the queue of the simulation holds the
  process's event with status Terminated and \<open>finishedAt\<close> equal to the final
  \<open>currentTime\<close>, and holds no other event with that identifier: shutdown resolves the
  termination promise, which forces the events of parked processes into the Terminated
  state.
\<close>

theorem parked_process_is_terminated:
  assumes "admitAll initialState adms = Ok s0"
      and "runSimulation procs n s0 = Finished s'"
      and "(now, ev, None) \<in> set (eventPromises s')"
  shows "ev\<lparr>finishedAt := Some (currentTime (theSim s')), status := Terminated\<rparr>
           \<in> set (events (theSim s')) \<and>
         (\<forall>e\<in>set (events (theSim s')). eid e = eid ev \<longrightarrow>
            e = ev\<lparr>finishedAt := Some (currentTime (theSim s')), status := Terminated\<rparr>)"
proof -
  from finished_run [OF assms(1,2)] obtain sl where inv: "runInvariant sl"
    and s': "s' = finalize (Some (length (eventPromises sl), ())) sl" by blast
  have "eventPromises s' = eventPromises sl"
    unfolding s' by (simp add: finalize_keeps)
  then have e: "(now, ev, None) \<in> set (eventPromises sl)"
    using assms(3) by simp
  have c: "currentTime (theSim s') = currentTime (theSim sl)"
    unfolding s' by (simp add: finalize_keeps)
  let ?x = "ev\<lparr>finishedAt := Some (currentTime (theSim s')), status := Terminated\<rparr>"
  have x: "settledEvent (currentTime (theSim sl)) (now, ev, None) = ?x"
    unfolding c by simp
  have m: "?x \<in> set (events (theSim s'))" and d: "distinct (map eid (events (theSim s')))"
    using finalized_entry [OF inv e] unfolding x s' by simp_all
  have inj: "inj_on eid (set (events (theSim s')))" using d by (simp add: distinct_map)
  have "\<forall>e\<in>set (events (theSim s')). eid e = eid ev \<longrightarrow> e = ?x"
  proof (intro ballI impI)
    fix e assume "e \<in> set (events (theSim s'))" "eid e = eid ev"
    then have "eid e = eid ?x" by simp
    from inj_onD [OF inj this \<open>e \<in> set (events (theSim s'))\<close> m] show "e = ?x" .
  qed
  then show ?thesis using m by blast
qed

theorem parked_process_is_terminated_witness:
  "admitAll initialState [(0, 0, JUndefined)] = Ok
     \<lparr>theSim = \<lparr>currentTime = 0, events = [
       \<lparr>eid = 1, status = Scheduled, firedAt = 0, scheduledAt = 0,
        finishedAt = None, item = JUndefined, callback = 0\<rparr>]\<rparr>,
      lastId = 1, theStore = \<lparr>items = [], queue = []\<rparr>, eventPromises = []\<rparr> \<and>
   runSimulation (\<lambda>_. consumer) 2
     \<lparr>theSim = \<lparr>currentTime = 0, events = [
       \<lparr>eid = 1, status = Scheduled, firedAt = 0, scheduledAt = 0,
        finishedAt = None, item = JUndefined, callback = 0\<rparr>]\<rparr>,
      lastId = 1, theStore = \<lparr>items = [], queue = []\<rparr>, eventPromises = []\<rparr> = Finished
     \<lparr>theSim = \<lparr>currentTime = 0, events = [
       \<lparr>eid = 1, status = Terminated, firedAt = 0, scheduledAt = 0,
        finishedAt = Some 0, item = JUndefined, callback = 0\<rparr>]\<rparr>,
      lastId = 1, theStore = \<lparr>items = [], queue = [0]\<rparr>,
      eventPromises = [(0, \<lparr>eid = 1, status = Pending, firedAt = 0, scheduledAt = 0,
        finishedAt = None, item = JUndefined, callback = 0\<rparr>, None)]\<rparr> \<and>
   (0, \<lparr>eid = 1, status = Pending, firedAt = 0, scheduledAt = 0,
        finishedAt = None, item = JUndefined, callback = 0\<rparr>, None) \<in> set (eventPromises
     \<lparr>theSim = \<lparr>currentTime = 0, events = [
       \<lparr>eid = 1, status = Terminated, firedAt = 0, scheduledAt = 0,
        finishedAt = Some 0, item = JUndefined, callback = 0\<rparr>]\<rparr>,
      lastId = 1, theStore = \<lparr>items = [], queue = [0]\<rparr>,
      eventPromises = [(0, \<lparr>eid = 1, status = Pending, firedAt = 0, scheduledAt = 0,
        finishedAt = None, item = JUndefined, callback = 0\<rparr>, None)]\<rparr>) \<and>
   \<lparr>eid = 1, status = Terminated, firedAt = 0, scheduledAt = 0,
        finishedAt = Some 0, item = JUndefined, callback = 0\<rparr> \<in> set (events (theSim
     \<lparr>theSim = \<lparr>currentTime = 0, events = [
       \<lparr>eid = 1, status = Terminated, firedAt = 0, scheduledAt = 0,
        finishedAt = Some 0, item = JUndefined, callback = 0\<rparr>]\<rparr>,
      lastId = 1, theStore = \<lparr>items = [], queue = [0]\<rparr>,
      eventPromises = [(0, \<lparr>eid = 1, status = Pending, firedAt = 0, scheduledAt = 0,
        finishedAt = None, item = JUndefined, callback = 0\<rparr>, None)]\<rparr>))"
proof -
  have h1: "admitAll initialState [(0, 0, JUndefined)] = Ok
     \<lparr>theSim = \<lparr>currentTime = 0, events = [
       \<lparr>eid = 1, status = Scheduled, firedAt = 0, scheduledAt = 0,
        finishedAt = None, item = JUndefined, callback = 0\<rparr>]\<rparr>,
      lastId = 1, theStore = \<lparr>items = [], queue = []\<rparr>, eventPromises = []\<rparr>"
    by code_simp
  have h2: "runSimulation (\<lambda>_. consumer) 2
     \<lparr>theSim = \<lparr>currentTime = 0, events = [
       \<lparr>eid = 1, status = Scheduled, firedAt = 0, scheduledAt = 0,
        finishedAt = None, item = JUndefined, callback = 0\<rparr>]\<rparr>,
      lastId = 1, theStore = \<lparr>items = [], queue = []\<rparr>, eventPromises = []\<rparr> = Finished
     \<lparr>theSim = \<lparr>currentTime = 0, events = [
       \<lparr>eid = 1, status = Terminated, firedAt = 0, scheduledAt = 0,
        finishedAt = Some 0, item = JUndefined, callback = 0\<rparr>]\<rparr>,
      lastId = 1, theStore = \<lparr>items = [], queue = [0]\<rparr>,
      eventPromises = [(0, \<lparr>eid = 1, status = Pending, firedAt = 0, scheduledAt = 0,
        finishedAt = None, item = JUndefined, callback = 0\<rparr>, None)]\<rparr>"
    by code_simp
  have h3: "(0, \<lparr>eid = 1, status = Pending, firedAt = 0, scheduledAt = 0,
        finishedAt = None, item = JUndefined, callback = 0\<rparr>, None) \<in> set (eventPromises
     \<lparr>theSim = \<lparr>currentTime = 0, events = [
       \<lparr>eid = 1, status = Terminated, firedAt = 0, scheduledAt = 0,
        finishedAt = Some 0, item = JUndefined, callback = 0\<rparr>]\<rparr>,
      lastId = 1, theStore = \<lparr>items = [], queue = [0]\<rparr>,
      eventPromises = [(0, \<lparr>eid = 1, status = Pending, firedAt = 0, scheduledAt = 0,
        finishedAt = None, item = JUndefined, callback = 0\<rparr>, None)]\<rparr>)"
    by simp
  show ?thesis
    using h1 h2 h3 parked_process_is_terminated [OF h1 h2 h3] by simp
qed

section \<open>Scheduler: dispatch order\<close>

text \<open>
  C1 (as stated: of the events that share a due time, the one admitted first is
  dispatched first). Two idle events are created and admitted for time 0, event 1
  before event 2. Both are dispatched at time 0, event 2 first: the queue is kept in
  descending order of due time with equal times in admission order, and the loop pops
  from its end.
\<close>

theorem equal_times_dispatch_latest_first:
  "map eid (events (theSim (stateOf
      (admitAll initialState [(0, 0, JUndefined), (0, 0, JUndefined)])))) = [1, 2] \<and>
   map scheduledAt (dispatched (finalState (runSimulation (\<lambda>_. idle) 3 (stateOf
      (admitAll initialState [(0, 0, JUndefined), (0, 0, JUndefined)]))))) = [0, 0] \<and>
   map eid (dispatched (finalState (runSimulation (\<lambda>_. idle) 3 (stateOf
      (admitAll initialState [(0, 0, JUndefined), (0, 0, JUndefined)]))))) = [2, 1]"
  by code_simp

text \<open>
  The rest of the section is about the event that an iteration dispatches when several
  are due at the same time. The rank of an event in the order of admission does not
  depend on its status.
\<close>

lemma admissionRank_status [simp]:
  "admissionRank es (e\<lparr>status := x\<rparr>) = admissionRank es e"
  by (simp add: admissionRank_def)

lemma insert_cmp_ranked:
  "sorted_wrt (rankedBefore rk) L \<Longrightarrow>
   (\<forall>z\<in>set L. scheduledAt z = scheduledAt y \<longrightarrow> rk y < rk z) \<Longrightarrow>
   sorted_wrt (rankedBefore rk) (insert_cmp by_time_desc y L)"
proof (induction L)
  case Nil
  then show ?case by simp
next
  case (Cons z zs)
  show ?case
  proof (cases "by_time_desc y z \<le> 0")
    case True
    then have le: "scheduledAt z \<le> scheduledAt y" by (simp add: by_time_desc_def)
    have "rankedBefore rk y z" using le Cons.prems(2) by (auto simp: rankedBefore_def)
    moreover have "\<forall>w\<in>set zs. rankedBefore rk y w"
    proof
      fix w assume w: "w \<in> set zs"
      then have "rankedBefore rk z w" using Cons.prems(1) by simp
      then have "scheduledAt w \<le> scheduledAt y" using le by (auto simp: rankedBefore_def)
      then show "rankedBefore rk y w" using Cons.prems(2) w by (auto simp: rankedBefore_def)
    qed
    ultimately show ?thesis using True Cons.prems(1) by simp
  next
    case False
    then have lt: "scheduledAt y < scheduledAt z" by (simp add: by_time_desc_def)
    have "sorted_wrt (rankedBefore rk) (insert_cmp by_time_desc y zs)"
      using Cons.IH Cons.prems by simp
    moreover have "\<forall>w\<in>set (insert_cmp by_time_desc y zs). rankedBefore rk z w"
      using Cons.prems(1) lt by (auto simp: insert_cmp_set rankedBefore_def)
    ultimately show ?thesis using False by simp
  qed
qed

text \<open>
  \<open>scheduleEvent\<close> sorts the queue with the new event appended. On a queue that is in
  order, an event of greater rank than all the queued ones goes behind those with the
  same due time, and the others keep their places.
\<close>

lemma resort_ranked:
  "sorted_wrt (rankedBefore rk) xs \<Longrightarrow> \<forall>y\<in>set xs. rk y < rk x \<Longrightarrow>
   sorted_wrt (rankedBefore rk) (foldr (insert_cmp by_time_desc) xs [x])"
proof (induction xs)
  case Nil
  then show ?case by simp
next
  case (Cons y ys)
  let ?L = "foldr (insert_cmp by_time_desc) ys [x]"
  have ih: "sorted_wrt (rankedBefore rk) ?L" using Cons.IH Cons.prems by simp
  have "\<forall>z\<in>set ?L. scheduledAt z = scheduledAt y \<longrightarrow> rk y < rk z"
    using Cons.prems by (auto simp: resort_set rankedBefore_def)
  from insert_cmp_ranked [OF ih this] show ?case by simp
qed

lemma rank_in_prefix:
  assumes "eid q \<in> eid ` set pre"
  shows "admissionRank (pre @ rest) q < length pre"
proof -
  let ?P = "\<lambda>x. eid x \<noteq> eid q"
  from assms obtain x where x: "x \<in> set pre" "\<not> ?P x" by auto
  then have t: "takeWhile ?P (pre @ rest) = takeWhile ?P pre" by (simp add: takeWhile_append1)
  have "takeWhile ?P pre \<noteq> pre" using x by (auto simp: takeWhile_eq_all_conv)
  moreover have "length (takeWhile ?P pre) \<le> length pre" by (rule length_takeWhile_le)
  moreover have "length (takeWhile ?P pre) = length pre \<Longrightarrow> takeWhile ?P pre = pre"
    by (metis takeWhile_eq_take take_all order_refl)
  ultimately have "length (takeWhile ?P pre) < length pre" by force
  then show ?thesis using assms by (simp add: admissionRank_def t)
qed

lemma rank_at_position:
  assumes "distinct (map eid (pre @ e # rest))"
  shows "admissionRank (pre @ e # rest) e = length pre"
proof -
  let ?P = "\<lambda>x. eid x \<noteq> eid e"
  have "eid e \<notin> eid ` set pre" using assms by auto
  then have "\<And>x. x \<in> set pre \<Longrightarrow> ?P x" by (metis imageI)
  then have "takeWhile ?P (pre @ e # rest) = pre @ takeWhile ?P (e # rest)"
    by (simp add: takeWhile_append2)
  then show ?thesis by (simp add: admissionRank_def)
qed

lemma rank_of_new:
  assumes "\<forall>x\<in>set es. eid x \<noteq> eid e"
  shows "admissionRank es e = length es + eid e"
  using assms by (auto simp: admissionRank_def)

lemma setup_ranked:
  "distinct (map eid (pre @ rest)) \<Longrightarrow>
   sorted_wrt (rankedBefore (admissionRank (pre @ rest))) (events sim) \<Longrightarrow>
   \<forall>q\<in>set (events sim). eid q \<in> eid ` set pre \<Longrightarrow>
   admitEvents sim rest = (None, sim') \<Longrightarrow>
   sorted_wrt (rankedBefore (admissionRank (pre @ rest))) (events sim') \<and>
   (\<forall>q\<in>set (events sim'). eid q \<in> eid ` set (pre @ rest))"
proof (induction rest arbitrary: pre sim)
  case Nil
  then show ?case by simp
next
  case (Cons e rest)
  let ?es = "pre @ e # rest"
  let ?e = "e\<lparr>status := Scheduled\<rparr>"
  let ?evs = "foldr (insert_cmp by_time_desc) (events sim) [?e]"
  have ok: "\<not> scheduledAt e < currentTime sim"
    using Cons.prems(4) by (auto simp: admit_def scheduleEvent_def split: if_splits)
  then have adm: "admit sim e = (None, sim\<lparr>events := ?evs\<rparr>)"
    by (simp add: admit_def scheduleEvent_def sort_cmp_def)
  then have rest: "admitEvents (sim\<lparr>events := ?evs\<rparr>) rest = (None, sim')"
    using Cons.prems(4) by simp
  have re: "admissionRank ?es ?e = length pre"
    using rank_at_position [OF Cons.prems(1)] by simp
  have "\<forall>q\<in>set (events sim). admissionRank ?es q < admissionRank ?es ?e"
    using Cons.prems(3) rank_in_prefix [of _ pre "e # rest"] re by simp
  from resort_ranked [OF Cons.prems(2) this]
  have s1: "sorted_wrt (rankedBefore (admissionRank ((pre @ [e]) @ rest)))
              (events (sim\<lparr>events := ?evs\<rparr>))" by simp
  have i1: "\<forall>q\<in>set (events (sim\<lparr>events := ?evs\<rparr>)). eid q \<in> eid ` set (pre @ [e])"
    using Cons.prems(3) by (auto simp: resort_set)
  have d1: "distinct (map eid ((pre @ [e]) @ rest))" using Cons.prems(1) by simp
  from Cons.IH [OF d1 s1 i1 rest] show ?case by simp
qed

lemma setup_rankOrdered:
  assumes "admitEvents initializeSimulation es = (None, sim0)"
      and "distinct (map eid es)" and "list_all (\<lambda>e. eid e \<le> l0) es"
  shows "rankOrdered es \<lparr>theSim = sim0, lastId = l0, theStore = st, eventPromises = []\<rparr>"
proof -
  have "sorted_wrt (rankedBefore (admissionRank ([] @ es))) (events initializeSimulation)"
    "\<forall>q\<in>set (events initializeSimulation). eid q \<in> eid ` set []"
    by (simp_all add: initializeSimulation_def)
  from setup_ranked [OF _ this assms(1)] assms(2)
  have s: "sorted_wrt (rankedBefore (admissionRank es)) (events sim0)"
    and i: "\<forall>q\<in>set (events sim0). eid q \<in> eid ` set es" by simp_all
  have "\<forall>q\<in>set (events sim0). admissionRank es q \<le> length es + l0"
  proof
    fix q assume "q \<in> set (events sim0)"
    then have "admissionRank (es @ []) q < length es" using i rank_in_prefix by blast
    then show "admissionRank es q \<le> length es + l0" by simp
  qed
  then show ?thesis using s assms(3) by (simp add: rankOrdered_def list_all_iff)
qed

lemma admitNew_rankOrdered:
  assumes "rankOrdered es s"
  shows "rankOrdered es (stateOf (admitNew s a))"
proof -
  let ?rk = "admissionRank es"
  have srt: "sorted_wrt (rankedBefore ?rk) (events (theSim s))"
    and rks: "\<forall>q\<in>set (events (theSim s)). ?rk q \<le> length es + lastId s"
    and ids: "\<forall>x\<in>set es. eid x \<le> lastId s"
    using assms by (simp_all add: rankOrdered_def list_all_iff)
  have l: "lastId (stateOf (admitNew s a)) = Suc (lastId s)" by (rule admitNew_lastId)
  from admitNew_events [of s a] show ?thesis
  proof
    assume "events (theSim (stateOf (admitNew s a))) = events (theSim s)"
    then show ?thesis using srt rks ids l by (auto simp: rankOrdered_def list_all_iff)
  next
    assume "\<exists>ev. eid ev = Suc (lastId s) \<and> status ev = Scheduled \<and>
      events (theSim (stateOf (admitNew s a)))
        = foldr (insert_cmp by_time_desc) (events (theSim s)) [ev]"
    then obtain ev where ev: "eid ev = Suc (lastId s)"
      "events (theSim (stateOf (admitNew s a)))
        = foldr (insert_cmp by_time_desc) (events (theSim s)) [ev]" by blast
    have "\<forall>x\<in>set es. eid x \<noteq> eid ev" using ids ev(1) by auto
    then have rk: "?rk ev = length es + Suc (lastId s)" using rank_of_new ev(1) by simp
    then have "\<forall>q\<in>set (events (theSim s)). ?rk q < ?rk ev" using rks by auto
    from resort_ranked [OF srt this]
    have "sorted_wrt (rankedBefore ?rk) (events (theSim (stateOf (admitNew s a))))"
      using ev(2) by simp
    moreover have "\<forall>q\<in>set (events (theSim (stateOf (admitNew s a)))).
        ?rk q \<le> length es + Suc (lastId s)"
      using rks rk ev(2) by (auto simp: resort_set)
    ultimately show ?thesis using ids l by (auto simp: rankOrdered_def list_all_iff)
  qed
qed

lemma admitAll_rankOrdered:
  "rankOrdered es s \<Longrightarrow> rankOrdered es (stateOf (admitAll s as))"
proof (induction as arbitrary: s)
  case Nil
  then show ?case by simp
next
  case (Cons a as)
  have q: "rankOrdered es (stateOf (admitNew s a))" using admitNew_rankOrdered [OF Cons.prems] .
  show ?case
  proof (cases "admitNew s a")
    case (Ok s')
    then show ?thesis using q Cons.IH [of s'] by simp
  next
    case (Threw err s')
    then show ?thesis using q by simp
  qed
qed

lemma rankedBefore_keys:
  "sorted_wrt (rankedBefore rk) xs \<longleftrightarrow>
   sorted_wrt (\<lambda>a b. fst a > fst b \<or> (fst a = fst b \<and> snd a < snd b))
     (map (\<lambda>e. (scheduledAt e, rk e)) xs)"
  by (simp add: sorted_wrt_map rankedBefore_def [abs_def])

lemma mark_pending_ranked:
  "(\<And>e. rk (e\<lparr>status := Pending\<rparr>) = rk e) \<Longrightarrow>
   sorted_wrt (rankedBefore rk) (update_last P (\<lambda>e. e\<lparr>status := Pending\<rparr>) xs)
     = sorted_wrt (rankedBefore rk) xs"
  unfolding rankedBefore_keys
  by (simp add: update_last_map [where key = "\<lambda>e. (scheduledAt e, rk e)"])

lemma mark_pending_ranks:
  "list_all (\<lambda>e. admissionRank es e \<le> n) (update_last P (\<lambda>e. e\<lparr>status := Pending\<rparr>) xs)
     = list_all (\<lambda>e. admissionRank es e \<le> n) xs"
  by (induction xs) auto

lemma dispatch_rankOrdered: "rankOrdered es s \<Longrightarrow> rankOrdered es (dispatch s ev)"
  by (simp add: rankOrdered_def dispatch_def mark_pending_ranked mark_pending_ranks)

lemma invoke_rankOrdered:
  "rankOrdered es s \<Longrightarrow> rankOrdered es (stateOf (invoke procs ev s))"
proof -
  assume q: "rankOrdered es s"
  obtain adms r where p: "procs (callback ev) (theSim s) ev = (adms, r)"
    by (cases "procs (callback ev) (theSim s) ev") auto
  have "rankOrdered es (stateOf (admitAll s adms))" using admitAll_rankOrdered [OF q] .
  then show ?thesis using p
    by (cases "admitAll s adms") (auto simp: invoke_def rankOrdered_def callReturn_keeps)
qed

lemma step_rankOrdered:
  "rankOrdered es s \<Longrightarrow> step procs s = Some r \<Longrightarrow> rankOrdered es (stateOf r)"
  by (auto simp: step_def split: option.splits
           intro: invoke_rankOrdered dispatch_rankOrdered)

lemma runLoop_ordered:
  "rankOrdered es s \<Longrightarrow> logOrdered s \<Longrightarrow>
   rankOrdered es (finalState (runLoop procs n s)) \<and> logOrdered (finalState (runLoop procs n s))"
proof (induction n arbitrary: s)
  case 0
  then show ?case by simp
next
  case (Suc n)
  show ?case
  proof (cases "step procs s")
    case None
    then show ?thesis using Suc.prems by simp
  next
    case (Some r)
    have q: "rankOrdered es (stateOf r)" using step_rankOrdered [OF Suc.prems(1) Some] .
    have l: "logOrdered (stateOf r)" using step_logOrdered [OF Suc.prems(2) Some] .
    show ?thesis
    proof (cases r)
      case (Ok s')
      then show ?thesis using Some q l Suc.IH [of s'] by simp
    next
      case (Threw err s')
      then show ?thesis using Some q l by simp
    qed
  qed
qed

lemma invoke_Ok_dispatched:
  assumes "invoke procs ev s = Ok s'"
  shows "dispatched s' = dispatched s @ [ev]"
proof -
  obtain adms r where p: "procs (callback ev) (theSim s) ev = (adms, r)"
    by (cases "procs (callback ev) (theSim s) ev") auto
  have d: "dispatched (stateOf (admitAll s adms)) = dispatched s"
    using admitAll_keeps [of s adms] by (simp add: dispatched_def)
  show ?thesis using assms p d
    by (cases "admitAll s adms") (auto simp: invoke_def callReturn_keeps)
qed

lemma popped_is_last_admitted:
  assumes "sorted_wrt (rankedBefore rk) (events sim)" "pop (eventsTodo sim) = Some ev"
      and "e' \<in> set (eventsTodo sim)"
  shows "scheduledAt ev \<le> scheduledAt e' \<and>
         (scheduledAt e' = scheduledAt ev \<longrightarrow> e' = ev \<or> rk e' < rk ev)"
proof -
  have "sorted_wrt (rankedBefore rk) (eventsTodo sim)"
    using assms(1) by (simp add: eventsTodo_def sorted_wrt_filter)
  from last_of_ordered [OF this assms(3)] have "e' = ev \<or> rankedBefore rk e' ev"
    using assms(2) by (simp add: pop_Some)
  then show ?thesis by (auto simp: rankedBefore_def)
qed

text \<open>
  C1 (amended). A run is prepared from a fresh simulation by admitting events \<open>es\<close>,
  one after the other in the order of the list; they were created before, in any
  order, so their identifiers are distinct and not above the counter. The processes
  may admit further events while they run. After any number of iterations of the loop
  of \<open>runSimulation\<close>, the due times of the events dispatched so far are in
  non-decreasing order. The next iteration leaves the loop exactly when no event is
  due and still Scheduled. Otherwise it dispatches one of the events that are due and
  still Scheduled: it calls the process of that event, marked Pending, and when the
  process does not throw the event is the next one of the log. That event has the
  smallest due time of the events that are due and still Scheduled, and every other of
  them with the same due time was admitted before it: of the events that share a due
  time, the one admitted last is dispatched first.
\<close>

theorem dispatch_order:
  assumes "admitEvents initializeSimulation es = (None, theSim s0)"
      and "distinct (map eid es)"
      and "list_all (\<lambda>e. eid e \<le> lastId s0) es"
      and "eventPromises s0 = []"
  shows "sorted (map scheduledAt (dispatched (finalState (runLoop procs n s0)))) \<and>
         (step procs (finalState (runLoop procs n s0)) = None
            \<longleftrightarrow> eventsTodo (theSim (finalState (runLoop procs n s0))) = []) \<and>
         (step procs (finalState (runLoop procs n s0)) = Some r \<longrightarrow>
            (\<exists>ev. ev \<in> set (eventsTodo (theSim (finalState (runLoop procs n s0)))) \<and>
                  r = invoke procs (ev\<lparr>status := Pending\<rparr>)
                        (dispatch (finalState (runLoop procs n s0)) ev) \<and>
                  (\<forall>s'. r = Ok s' \<longrightarrow>
                     dispatched s' = dispatched (finalState (runLoop procs n s0))
                                       @ [ev\<lparr>status := Pending\<rparr>]) \<and>
                  (\<forall>e'\<in>set (eventsTodo (theSim (finalState (runLoop procs n s0)))).
                     scheduledAt ev \<le> scheduledAt e' \<and>
                     (scheduledAt e' = scheduledAt ev \<longrightarrow>
                        e' = ev \<or> admissionRank es e' < admissionRank es ev))))"
proof -
  let ?S = "finalState (runLoop procs n s0)"
  have "rankOrdered es \<lparr>theSim = theSim s0, lastId = lastId s0,
                        theStore = theStore s0, eventPromises = []\<rparr>"
    using setup_rankOrdered [OF assms(1) assms(2) assms(3)] .
  then have q: "rankOrdered es s0" by (simp add: rankOrdered_def)
  have l: "logOrdered s0" using assms(4) by (simp add: logOrdered_def dispatched_def)
  from runLoop_ordered [OF q l, of procs n]
  have srt: "sorted_wrt (rankedBefore (admissionRank es)) (events (theSim ?S))"
    and lg: "sorted (map scheduledAt (dispatched ?S))"
    by (simp_all add: rankOrdered_def logOrdered_def)
  have none: "step procs ?S = None \<longleftrightarrow> eventsTodo (theSim ?S) = []"
    by (auto simp: step_def pop_None pop_Some split: option.splits)
  have some: "step procs ?S = Some r \<longrightarrow>
      (\<exists>ev. ev \<in> set (eventsTodo (theSim ?S)) \<and>
            r = invoke procs (ev\<lparr>status := Pending\<rparr>) (dispatch ?S ev) \<and>
            (\<forall>s'. r = Ok s' \<longrightarrow> dispatched s' = dispatched ?S @ [ev\<lparr>status := Pending\<rparr>]) \<and>
            (\<forall>e'\<in>set (eventsTodo (theSim ?S)).
               scheduledAt ev \<le> scheduledAt e' \<and>
               (scheduledAt e' = scheduledAt ev \<longrightarrow>
                  e' = ev \<or> admissionRank es e' < admissionRank es ev)))"
  proof
    assume st: "step procs ?S = Some r"
    then obtain ev where p: "pop (eventsTodo (theSim ?S)) = Some ev"
      and r: "r = invoke procs (ev\<lparr>status := Pending\<rparr>) (dispatch ?S ev)"
      by (auto simp: step_def split: option.splits)
    have m: "ev \<in> set (eventsTodo (theSim ?S))" using p by (auto simp: pop_Some)
    have d: "\<forall>s'. r = Ok s' \<longrightarrow> dispatched s' = dispatched ?S @ [ev\<lparr>status := Pending\<rparr>]"
    proof (intro allI impI)
      fix s' assume "r = Ok s'"
      then have "dispatched s' = dispatched (dispatch ?S ev) @ [ev\<lparr>status := Pending\<rparr>]"
        using r invoke_Ok_dispatched [of procs "ev\<lparr>status := Pending\<rparr>" "dispatch ?S ev" s']
        by simp
      then show "dispatched s' = dispatched ?S @ [ev\<lparr>status := Pending\<rparr>]"
        by (simp add: dispatched_def dispatch_def)
    qed
    have o: "\<forall>e'\<in>set (eventsTodo (theSim ?S)).
               scheduledAt ev \<le> scheduledAt e' \<and>
               (scheduledAt e' = scheduledAt ev \<longrightarrow>
                  e' = ev \<or> admissionRank es e' < admissionRank es ev)"
      using popped_is_last_admitted [OF srt p] by blast
    show "\<exists>ev. ev \<in> set (eventsTodo (theSim ?S)) \<and>
            r = invoke procs (ev\<lparr>status := Pending\<rparr>) (dispatch ?S ev) \<and>
            (\<forall>s'. r = Ok s' \<longrightarrow> dispatched s' = dispatched ?S @ [ev\<lparr>status := Pending\<rparr>]) \<and>
            (\<forall>e'\<in>set (eventsTodo (theSim ?S)).
               scheduledAt ev \<le> scheduledAt e' \<and>
               (scheduledAt e' = scheduledAt ev \<longrightarrow>
                  e' = ev \<or> admissionRank es e' < admissionRank es ev))"
      using m r d o by blast
  qed
  show ?thesis using lg none some by blast
qed


theorem dispatch_order_witness:
  "admitEvents initializeSimulation
      [\<lparr>eid = 3, status = Fired, firedAt = 0, scheduledAt = 0,
        finishedAt = None, item = JUndefined, callback = 0\<rparr>,
       \<lparr>eid = 1, status = Fired, firedAt = 0, scheduledAt = 0,
        finishedAt = None, item = JUndefined, callback = 0\<rparr>,
       \<lparr>eid = 2, status = Fired, firedAt = 0, scheduledAt = 0,
        finishedAt = None, item = JUndefined, callback = 0\<rparr>]
    = (None, \<lparr>currentTime = 0, events = [
       \<lparr>eid = 3, status = Scheduled, firedAt = 0, scheduledAt = 0,
        finishedAt = None, item = JUndefined, callback = 0\<rparr>,
       \<lparr>eid = 1, status = Scheduled, firedAt = 0, scheduledAt = 0,
        finishedAt = None, item = JUndefined, callback = 0\<rparr>,
       \<lparr>eid = 2, status = Scheduled, firedAt = 0, scheduledAt = 0,
        finishedAt = None, item = JUndefined, callback = 0\<rparr>]\<rparr>) \<and>
   distinct (map eid
      [\<lparr>eid = 3, status = Fired, firedAt = 0, scheduledAt = 0,
        finishedAt = None, item = JUndefined, callback = 0\<rparr>,
       \<lparr>eid = 1, status = Fired, firedAt = 0, scheduledAt = 0,
        finishedAt = None, item = JUndefined, callback = 0\<rparr>,
       \<lparr>eid = 2, status = Fired, firedAt = 0, scheduledAt = 0,
        finishedAt = None, item = JUndefined, callback = 0\<rparr>]) \<and>
   list_all (\<lambda>e. eid e \<le> 3)
      [\<lparr>eid = 3, status = Fired, firedAt = 0, scheduledAt = 0,
        finishedAt = None, item = JUndefined, callback = 0\<rparr>,
       \<lparr>eid = 1, status = Fired, firedAt = 0, scheduledAt = 0,
        finishedAt = None, item = JUndefined, callback = 0\<rparr>,
       \<lparr>eid = 2, status = Fired, firedAt = 0, scheduledAt = 0,
        finishedAt = None, item = JUndefined, callback = 0\<rparr>] \<and>
   dispatched (finalState (runLoop (\<lambda>_. idle) 1
     \<lparr>theSim = \<lparr>currentTime = 0, events = [
       \<lparr>eid = 3, status = Scheduled, firedAt = 0, scheduledAt = 0,
        finishedAt = None, item = JUndefined, callback = 0\<rparr>,
       \<lparr>eid = 1, status = Scheduled, firedAt = 0, scheduledAt = 0,
        finishedAt = None, item = JUndefined, callback = 0\<rparr>,
       \<lparr>eid = 2, status = Scheduled, firedAt = 0, scheduledAt = 0,
        finishedAt = None, item = JUndefined, callback = 0\<rparr>]\<rparr>,
      lastId = 3, theStore = createStore [], eventPromises = []\<rparr>))
    = [\<lparr>eid = 2, status = Pending, firedAt = 0, scheduledAt = 0,
        finishedAt = None, item = JUndefined, callback = 0\<rparr>] \<and>
   step (\<lambda>_. idle) (finalState (runLoop (\<lambda>_. idle) 1
     \<lparr>theSim = \<lparr>currentTime = 0, events = [
       \<lparr>eid = 3, status = Scheduled, firedAt = 0, scheduledAt = 0,
        finishedAt = None, item = JUndefined, callback = 0\<rparr>,
       \<lparr>eid = 1, status = Scheduled, firedAt = 0, scheduledAt = 0,
        finishedAt = None, item = JUndefined, callback = 0\<rparr>,
       \<lparr>eid = 2, status = Scheduled, firedAt = 0, scheduledAt = 0,
        finishedAt = None, item = JUndefined, callback = 0\<rparr>]\<rparr>,
      lastId = 3, theStore = createStore [], eventPromises = []\<rparr>))
    = Some (Ok (finalState (runLoop (\<lambda>_. idle) 2
     \<lparr>theSim = \<lparr>currentTime = 0, events = [
       \<lparr>eid = 3, status = Scheduled, firedAt = 0, scheduledAt = 0,
        finishedAt = None, item = JUndefined, callback = 0\<rparr>,
       \<lparr>eid = 1, status = Scheduled, firedAt = 0, scheduledAt = 0,
        finishedAt = None, item = JUndefined, callback = 0\<rparr>,
       \<lparr>eid = 2, status = Scheduled, firedAt = 0, scheduledAt = 0,
        finishedAt = None, item = JUndefined, callback = 0\<rparr>]\<rparr>,
      lastId = 3, theStore = createStore [], eventPromises = []\<rparr>))) \<and>
   dispatched (finalState (runLoop (\<lambda>_. idle) 2
     \<lparr>theSim = \<lparr>currentTime = 0, events = [
       \<lparr>eid = 3, status = Scheduled, firedAt = 0, scheduledAt = 0,
        finishedAt = None, item = JUndefined, callback = 0\<rparr>,
       \<lparr>eid = 1, status = Scheduled, firedAt = 0, scheduledAt = 0,
        finishedAt = None, item = JUndefined, callback = 0\<rparr>,
       \<lparr>eid = 2, status = Scheduled, firedAt = 0, scheduledAt = 0,
        finishedAt = None, item = JUndefined, callback = 0\<rparr>]\<rparr>,
      lastId = 3, theStore = createStore [], eventPromises = []\<rparr>))
    = [\<lparr>eid = 2, status = Pending, firedAt = 0, scheduledAt = 0,
        finishedAt = None, item = JUndefined, callback = 0\<rparr>,
       \<lparr>eid = 1, status = Pending, firedAt = 0, scheduledAt = 0,
        finishedAt = None, item = JUndefined, callback = 0\<rparr>] \<and>
   \<lparr>eid = 3, status = Scheduled, firedAt = 0, scheduledAt = 0,
        finishedAt = None, item = JUndefined, callback = 0\<rparr>
    \<in> set (eventsTodo (theSim (finalState (runLoop (\<lambda>_. idle) 1
     \<lparr>theSim = \<lparr>currentTime = 0, events = [
       \<lparr>eid = 3, status = Scheduled, firedAt = 0, scheduledAt = 0,
        finishedAt = None, item = JUndefined, callback = 0\<rparr>,
       \<lparr>eid = 1, status = Scheduled, firedAt = 0, scheduledAt = 0,
        finishedAt = None, item = JUndefined, callback = 0\<rparr>,
       \<lparr>eid = 2, status = Scheduled, firedAt = 0, scheduledAt = 0,
        finishedAt = None, item = JUndefined, callback = 0\<rparr>]\<rparr>,
      lastId = 3, theStore = createStore [], eventPromises = []\<rparr>)))) \<and>
   admissionRank
      [\<lparr>eid = 3, status = Fired, firedAt = 0, scheduledAt = 0,
        finishedAt = None, item = JUndefined, callback = 0\<rparr>,
       \<lparr>eid = 1, status = Fired, firedAt = 0, scheduledAt = 0,
        finishedAt = None, item = JUndefined, callback = 0\<rparr>,
       \<lparr>eid = 2, status = Fired, firedAt = 0, scheduledAt = 0,
        finishedAt = None, item = JUndefined, callback = 0\<rparr>]
      (\<lparr>eid = 3, status = Scheduled, firedAt = 0, scheduledAt = 0,
        finishedAt = None, item = JUndefined, callback = 0\<rparr>)
    < admissionRank
      [\<lparr>eid = 3, status = Fired, firedAt = 0, scheduledAt = 0,
        finishedAt = None, item = JUndefined, callback = 0\<rparr>,
       \<lparr>eid = 1, status = Fired, firedAt = 0, scheduledAt = 0,
        finishedAt = None, item = JUndefined, callback = 0\<rparr>,
       \<lparr>eid = 2, status = Fired, firedAt = 0, scheduledAt = 0,
        finishedAt = None, item = JUndefined, callback = 0\<rparr>]
      (\<lparr>eid = 1, status = Scheduled, firedAt = 0, scheduledAt = 0,
        finishedAt = None, item = JUndefined, callback = 0\<rparr>)"
proof -
  have h1: "admitEvents initializeSimulation
      [\<lparr>eid = 3, status = Fired, firedAt = 0, scheduledAt = 0,
        finishedAt = None, item = JUndefined, callback = 0\<rparr>,
       \<lparr>eid = 1, status = Fired, firedAt = 0, scheduledAt = 0,
        finishedAt = None, item = JUndefined, callback = 0\<rparr>,
       \<lparr>eid = 2, status = Fired, firedAt = 0, scheduledAt = 0,
        finishedAt = None, item = JUndefined, callback = 0\<rparr>]
    = (None, \<lparr>currentTime = 0, events = [
       \<lparr>eid = 3, status = Scheduled, firedAt = 0, scheduledAt = 0,
        finishedAt = None, item = JUndefined, callback = 0\<rparr>,
       \<lparr>eid = 1, status = Scheduled, firedAt = 0, scheduledAt = 0,
        finishedAt = None, item = JUndefined, callback = 0\<rparr>,
       \<lparr>eid = 2, status = Scheduled, firedAt = 0, scheduledAt = 0,
        finishedAt = None, item = JUndefined, callback = 0\<rparr>]\<rparr>)"
    by code_simp
  have h2: "distinct (map eid
      [\<lparr>eid = 3, status = Fired, firedAt = 0, scheduledAt = 0,
        finishedAt = None, item = JUndefined, callback = 0\<rparr>,
       \<lparr>eid = 1, status = Fired, firedAt = 0, scheduledAt = 0,
        finishedAt = None, item = JUndefined, callback = 0\<rparr>,
       \<lparr>eid = 2, status = Fired, firedAt = 0, scheduledAt = 0,
        finishedAt = None, item = JUndefined, callback = 0\<rparr>])"
    by code_simp
  have h3: "list_all (\<lambda>e. eid e \<le> 3)
      [\<lparr>eid = 3, status = Fired, firedAt = 0, scheduledAt = 0,
        finishedAt = None, item = JUndefined, callback = 0\<rparr>,
       \<lparr>eid = 1, status = Fired, firedAt = 0, scheduledAt = 0,
        finishedAt = None, item = JUndefined, callback = 0\<rparr>,
       \<lparr>eid = 2, status = Fired, firedAt = 0, scheduledAt = 0,
        finishedAt = None, item = JUndefined, callback = 0\<rparr>]"
    by code_simp
  have h4: "dispatched (finalState (runLoop (\<lambda>_. idle) 1
     \<lparr>theSim = \<lparr>currentTime = 0, events = [
       \<lparr>eid = 3, status = Scheduled, firedAt = 0, scheduledAt = 0,
        finishedAt = None, item = JUndefined, callback = 0\<rparr>,
       \<lparr>eid = 1, status = Scheduled, firedAt = 0, scheduledAt = 0,
        finishedAt = None, item = JUndefined, callback = 0\<rparr>,
       \<lparr>eid = 2, status = Scheduled, firedAt = 0, scheduledAt = 0,
        finishedAt = None, item = JUndefined, callback = 0\<rparr>]\<rparr>,
      lastId = 3, theStore = createStore [], eventPromises = []\<rparr>))
    = [\<lparr>eid = 2, status = Pending, firedAt = 0, scheduledAt = 0,
        finishedAt = None, item = JUndefined, callback = 0\<rparr>]"
    by code_simp
  have h5: "step (\<lambda>_. idle) (finalState (runLoop (\<lambda>_. idle) 1
     \<lparr>theSim = \<lparr>currentTime = 0, events = [
       \<lparr>eid = 3, status = Scheduled, firedAt = 0, scheduledAt = 0,
        finishedAt = None, item = JUndefined, callback = 0\<rparr>,
       \<lparr>eid = 1, status = Scheduled, firedAt = 0, scheduledAt = 0,
        finishedAt = None, item = JUndefined, callback = 0\<rparr>,
       \<lparr>eid = 2, status = Scheduled, firedAt = 0, scheduledAt = 0,
        finishedAt = None, item = JUndefined, callback = 0\<rparr>]\<rparr>,
      lastId = 3, theStore = createStore [], eventPromises = []\<rparr>))
    = Some (Ok (finalState (runLoop (\<lambda>_. idle) 2
     \<lparr>theSim = \<lparr>currentTime = 0, events = [
       \<lparr>eid = 3, status = Scheduled, firedAt = 0, scheduledAt = 0,
        finishedAt = None, item = JUndefined, callback = 0\<rparr>,
       \<lparr>eid = 1, status = Scheduled, firedAt = 0, scheduledAt = 0,
        finishedAt = None, item = JUndefined, callback = 0\<rparr>,
       \<lparr>eid = 2, status = Scheduled, firedAt = 0, scheduledAt = 0,
        finishedAt = None, item = JUndefined, callback = 0\<rparr>]\<rparr>,
      lastId = 3, theStore = createStore [], eventPromises = []\<rparr>)))"
    by code_simp
  have h6: "dispatched (finalState (runLoop (\<lambda>_. idle) 2
     \<lparr>theSim = \<lparr>currentTime = 0, events = [
       \<lparr>eid = 3, status = Scheduled, firedAt = 0, scheduledAt = 0,
        finishedAt = None, item = JUndefined, callback = 0\<rparr>,
       \<lparr>eid = 1, status = Scheduled, firedAt = 0, scheduledAt = 0,
        finishedAt = None, item = JUndefined, callback = 0\<rparr>,
       \<lparr>eid = 2, status = Scheduled, firedAt = 0, scheduledAt = 0,
        finishedAt = None, item = JUndefined, callback = 0\<rparr>]\<rparr>,
      lastId = 3, theStore = createStore [], eventPromises = []\<rparr>))
    = [\<lparr>eid = 2, status = Pending, firedAt = 0, scheduledAt = 0,
        finishedAt = None, item = JUndefined, callback = 0\<rparr>,
       \<lparr>eid = 1, status = Pending, firedAt = 0, scheduledAt = 0,
        finishedAt = None, item = JUndefined, callback = 0\<rparr>]"
    by code_simp
  have h7: "\<lparr>eid = 3, status = Scheduled, firedAt = 0, scheduledAt = 0,
        finishedAt = None, item = JUndefined, callback = 0\<rparr>
    \<in> set (eventsTodo (theSim (finalState (runLoop (\<lambda>_. idle) 1
     \<lparr>theSim = \<lparr>currentTime = 0, events = [
       \<lparr>eid = 3, status = Scheduled, firedAt = 0, scheduledAt = 0,
        finishedAt = None, item = JUndefined, callback = 0\<rparr>,
       \<lparr>eid = 1, status = Scheduled, firedAt = 0, scheduledAt = 0,
        finishedAt = None, item = JUndefined, callback = 0\<rparr>,
       \<lparr>eid = 2, status = Scheduled, firedAt = 0, scheduledAt = 0,
        finishedAt = None, item = JUndefined, callback = 0\<rparr>]\<rparr>,
      lastId = 3, theStore = createStore [], eventPromises = []\<rparr>))))"
    by code_simp
  have h8: "admissionRank
      [\<lparr>eid = 3, status = Fired, firedAt = 0, scheduledAt = 0,
        finishedAt = None, item = JUndefined, callback = 0\<rparr>,
       \<lparr>eid = 1, status = Fired, firedAt = 0, scheduledAt = 0,
        finishedAt = None, item = JUndefined, callback = 0\<rparr>,
       \<lparr>eid = 2, status = Fired, firedAt = 0, scheduledAt = 0,
        finishedAt = None, item = JUndefined, callback = 0\<rparr>]
      (\<lparr>eid = 3, status = Scheduled, firedAt = 0, scheduledAt = 0,
        finishedAt = None, item = JUndefined, callback = 0\<rparr>)
    < admissionRank
      [\<lparr>eid = 3, status = Fired, firedAt = 0, scheduledAt = 0,
        finishedAt = None, item = JUndefined, callback = 0\<rparr>,
       \<lparr>eid = 1, status = Fired, firedAt = 0, scheduledAt = 0,
        finishedAt = None, item = JUndefined, callback = 0\<rparr>,
       \<lparr>eid = 2, status = Fired, firedAt = 0, scheduledAt = 0,
        finishedAt = None, item = JUndefined, callback = 0\<rparr>]
      (\<lparr>eid = 1, status = Scheduled, firedAt = 0, scheduledAt = 0,
        finishedAt = None, item = JUndefined, callback = 0\<rparr>)"
    by code_simp
  show ?thesis
    using h1 h2 h3 h4 h5 h6 h7 h8
      dispatch_order [of
        "[\<lparr>eid = 3, status = Fired, firedAt = 0, scheduledAt = 0,
        finishedAt = None, item = JUndefined, callback = 0\<rparr>,
       \<lparr>eid = 1, status = Fired, firedAt = 0, scheduledAt = 0,
        finishedAt = None, item = JUndefined, callback = 0\<rparr>,
       \<lparr>eid = 2, status = Fired, firedAt = 0, scheduledAt = 0,
        finishedAt = None, item = JUndefined, callback = 0\<rparr>]"
        "\<lparr>theSim = \<lparr>currentTime = 0, events = [
       \<lparr>eid = 3, status = Scheduled, firedAt = 0, scheduledAt = 0,
        finishedAt = None, item = JUndefined, callback = 0\<rparr>,
       \<lparr>eid = 1, status = Scheduled, firedAt = 0, scheduledAt = 0,
        finishedAt = None, item = JUndefined, callback = 0\<rparr>,
       \<lparr>eid = 2, status = Scheduled, firedAt = 0, scheduledAt = 0,
        finishedAt = None, item = JUndefined, callback = 0\<rparr>]\<rparr>,
      lastId = 3, theStore = createStore [], eventPromises = []\<rparr>"
        "\<lambda>_. idle" 1
        "Ok (finalState (runLoop (\<lambda>_. idle) 2
     \<lparr>theSim = \<lparr>currentTime = 0, events = [
       \<lparr>eid = 3, status = Scheduled, firedAt = 0, scheduledAt = 0,
        finishedAt = None, item = JUndefined, callback = 0\<rparr>,
       \<lparr>eid = 1, status = Scheduled, firedAt = 0, scheduledAt = 0,
        finishedAt = None, item = JUndefined, callback = 0\<rparr>,
       \<lparr>eid = 2, status = Scheduled, firedAt = 0, scheduledAt = 0,
        finishedAt = None, item = JUndefined, callback = 0\<rparr>]\<rparr>,
      lastId = 3, theStore = createStore [], eventPromises = []\<rparr>))"]
    by simp
qed

end
